theory Spec2Isabelle
  imports Complex_Main "HOL-Library.Word" "HOL-Library.Log_Nat"
begin

section \<open>Audio-driven mouth synchronisation: the hook and the viseme selector\<close>

text \<open>
  The development embeds two pieces of the avatar front end:
  \<^item> the hook \<^verbatim>\<open>useAudioMouthSync\<close> (the graph cache, \<^verbatim>\<open>computeSpectralCentroid\<close>,
    \<^verbatim>\<open>tick\<close>, \<^verbatim>\<open>onPlay\<close>, \<^verbatim>\<open>onPause\<close>);
  \<^item> the viseme part of the \<^verbatim>\<open>useFrame\<close> callback of \<^verbatim>\<open>AvatarCanvas\<close>.

  The byte waveform is a list of 8-bit words; array indices and morph-target indices
  are natural numbers. JavaScript numbers are IEEE 754 doubles. Where every operation
  of the source is exact on the values it meets (the byte arithmetic of the loudness),
  they are real numbers. Where the result depends on rounding or on the values that are
  not numbers (the spectral centroid, the switching interval), each operation of the
  source is followed by the rounding of its result. The smoothing of the amplitude and
  the palette position are in exact arithmetic.
\<close>

subsection \<open>Double-precision arithmetic\<close>

text \<open>
  \<open>round_even\<close> rounds to the nearest integer, a tie to the even one. \<open>ulp_exp x\<close>
  is the exponent of the last binary place of the double nearest to \<open>x\<close>: 52 places
  below the leading bit of \<open>x\<close>, and never below \<open>-1074\<close>, the exponent of the
  smallest subnormal. \<open>rnd x\<close> is \<open>x\<close> rounded to that place: round to nearest, ties
  to even, with no bound on the exponent above.
\<close>

definition subnormal_scale :: real where
  "subnormal_scale = 2 ^ 1074"

definition round_even :: "real \<Rightarrow> int" where
  "round_even y =
     (let f = \<lfloor>y\<rfloor>; d = y - of_int f
      in if d < 1 / 2 then f else if 1 / 2 < d then f + 1 else if even f then f else f + 1)"

definition ulp_exp :: "real \<Rightarrow> int" where
  "ulp_exp x = max (- 1074) (bitlen \<lfloor>\<bar>x\<bar> * subnormal_scale\<rfloor> - 1127)"

definition rnd :: "real \<Rightarrow> real" where
  "rnd x = of_int (round_even (x / 2 powi ulp_exp x)) * 2 powi ulp_exp x"

text \<open>
  A JavaScript number: a finite value, an infinity, or NaN. The two zeros are not told
  apart; they differ only in the sign of a quotient by zero, and the code below divides
  by nothing that can be zero. \<open>fl\<close> is the result of an operation whose exact value is
  \<open>x\<close>: the rounded value, or an infinity from \<open>2 ^ 1024\<close> on.
\<close>

definition overflow_threshold :: real where
  "overflow_threshold = 2 ^ 1024"

datatype number = Num real | PosInf | NegInf | NaN

definition fl :: "real \<Rightarrow> number" where
  "fl x =
     (let y = rnd x
      in if overflow_threshold \<le> y then PosInf
         else if y \<le> - overflow_threshold then NegInf
         else Num y)"

text \<open>The operators \<^verbatim>\<open>+\<close>, \<^verbatim>\<open>*\<close> and \<^verbatim>\<open>/\<close> on numbers.\<close>

fun num_add :: "number \<Rightarrow> number \<Rightarrow> number" where
  "num_add NaN b = NaN"
| "num_add a NaN = NaN"
| "num_add PosInf NegInf = NaN"
| "num_add NegInf PosInf = NaN"
| "num_add PosInf b = PosInf"
| "num_add a PosInf = PosInf"
| "num_add NegInf b = NegInf"
| "num_add a NegInf = NegInf"
| "num_add (Num x) (Num y) = fl (x + y)"

fun num_mul :: "number \<Rightarrow> number \<Rightarrow> number" where
  "num_mul NaN b = NaN"
| "num_mul a NaN = NaN"
| "num_mul PosInf PosInf = PosInf"
| "num_mul PosInf NegInf = NegInf"
| "num_mul NegInf PosInf = NegInf"
| "num_mul NegInf NegInf = PosInf"
| "num_mul PosInf (Num y) = (if y = 0 then NaN else if 0 < y then PosInf else NegInf)"
| "num_mul NegInf (Num y) = (if y = 0 then NaN else if 0 < y then NegInf else PosInf)"
| "num_mul (Num x) PosInf = (if x = 0 then NaN else if 0 < x then PosInf else NegInf)"
| "num_mul (Num x) NegInf = (if x = 0 then NaN else if 0 < x then NegInf else PosInf)"
| "num_mul (Num x) (Num y) = fl (x * y)"

fun num_div :: "number \<Rightarrow> number \<Rightarrow> number" where
  "num_div NaN b = NaN"
| "num_div a NaN = NaN"
| "num_div PosInf PosInf = NaN"
| "num_div PosInf NegInf = NaN"
| "num_div NegInf PosInf = NaN"
| "num_div NegInf NegInf = NaN"
| "num_div PosInf (Num y) = (if 0 \<le> y then PosInf else NegInf)"
| "num_div NegInf (Num y) = (if 0 \<le> y then NegInf else PosInf)"
| "num_div (Num x) PosInf = Num 0"
| "num_div (Num x) NegInf = Num 0"
| "num_div (Num x) (Num y) =
     (if y = 0 then (if x = 0 then NaN else if 0 < x then PosInf else NegInf)
      else fl (x / y))"

text \<open>\<^verbatim>\<open>Math.max\<close> of two numbers, and the numbers that \<^verbatim>\<open>!x\<close> takes for false.\<close>

fun Math_max :: "number \<Rightarrow> number \<Rightarrow> number" where
  "Math_max NaN b = NaN"
| "Math_max a NaN = NaN"
| "Math_max PosInf b = PosInf"
| "Math_max a PosInf = PosInf"
| "Math_max NegInf b = b"
| "Math_max a NegInf = a"
| "Math_max (Num x) (Num y) = Num (max x y)"

fun falsy :: "number \<Rightarrow> bool" where
  "falsy NaN = True"
| "falsy (Num x) = (x = 0)"
| "falsy PosInf = False"
| "falsy NegInf = False"

subsection \<open>Feature extraction\<close>

text \<open>
  \<^verbatim>\<open>analyser.fftSize = 2048\<close>; the analyser's \<^verbatim>\<open>frequencyBinCount\<close> is half of it.
  \<^verbatim>\<open>timeData\<close> is a \<^verbatim>\<open>Uint8Array(analyser.fftSize)\<close> and \<^verbatim>\<open>freqData\<close> a
  \<^verbatim>\<open>Float32Array(analyser.frequencyBinCount)\<close>.
\<close>

definition fftSize :: nat where
  "fftSize = 2048"

definition frequencyBinCount :: nat where
  "frequencyBinCount = fftSize div 2"

text \<open>
  The loop of \<^verbatim>\<open>tick\<close>:
  \<^verbatim>\<open>for (let i = 0; i < timeData.length; i++) { const v = (timeData[i] - 128) / 128; sum += Math.abs(v) }\<close>
\<close>

function tick_loop :: "8 word list \<Rightarrow> nat \<Rightarrow> real \<Rightarrow> real" where
  "tick_loop timeData i sm =
     (if i < length timeData
      then (let v = (real (unat (timeData ! i)) - 128) / 128
            in tick_loop timeData (i + 1) (sm + \<bar>v\<bar>))
      else sm)"
  by pat_completeness auto
termination
  by (relation "measure (\<lambda>(timeData, i, sm). length timeData - i)") auto

text \<open>
  \<^verbatim>\<open>const avg = sum / timeData.length; const amp = Math.min(1, avg * 8)\<close>
\<close>

definition tick_amp :: "8 word list \<Rightarrow> real" where
  "tick_amp timeData =
     (let sm = tick_loop timeData 0 0;
          avg = sm / real (length timeData);
          amp = min 1 (avg * 8)
      in amp)"

text \<open>
  The loop of \<^verbatim>\<open>computeSpectralCentroid\<close>:
  \<^verbatim>\<open>const val = Math.max(0, freqData[i]); num += val * i; den += val\<close>
\<close>

function centroid_loop :: "number list \<Rightarrow> nat \<Rightarrow> number \<times> number \<Rightarrow> number \<times> number" where
  "centroid_loop freqData i (num, den) =
     (if i < length freqData
      then (let val = Math_max (Num 0) (freqData ! i)
            in centroid_loop freqData (i + 1)
                 (num_add num (num_mul val (Num (real i))), num_add den val))
      else (num, den))"
  by pat_completeness auto
termination
  by (relation "measure (\<lambda>(freqData, i, acc). length freqData - i)") auto

text \<open>
  \<^verbatim>\<open>computeSpectralCentroid\<close> first reads the spectrum with
  \<^verbatim>\<open>analyser.getFloatFrequencyData(freqData)\<close>. The outcome of that read is the argument
  of the model: \<open>Inl e\<close> when the read throws, \<open>Inr freqData\<close> with the filled buffer
  otherwise. The bins are the numbers read back from the \<^verbatim>\<open>Float32Array\<close>.
\<close>

datatype exn = Thrown

definition computeSpectralCentroid :: "exn + number list \<Rightarrow> exn + number" where
  "computeSpectralCentroid getFloatFrequencyData =
     (case getFloatFrequencyData of
        Inl e \<Rightarrow> Inl e
      | Inr freqData \<Rightarrow>
          (let (num, den) = centroid_loop freqData 0 (Num 0, Num 0)
           in if falsy den then Inr (Num 0)
              else (let centroid = num_div num den
                    in Inr (num_div centroid (Num (real (max 1 (length freqData - 1))))))))"

text \<open>
  For comparison, the centroid in exact arithmetic. \<open>weight\<close> is
  \<open>max(0, magnitude)\<close> as a real number (0 for \<open>-Infinity\<close>), \<open>energy fd i\<close> and
  \<open>moment fd i\<close> are the sums of the weights and of the weights times their bin
  index over the first \<open>i\<close> bins, and \<open>centroid_exact\<close> is their quotient divided
  by the bin count less one, or 0 when the energy is 0.
\<close>

definition weight :: "number \<Rightarrow> real" where
  "weight b = (case b of Num x \<Rightarrow> max 0 x | _ \<Rightarrow> 0)"

definition energy :: "number list \<Rightarrow> nat \<Rightarrow> real" where
  "energy fd i = (\<Sum>k = 0..<i. weight (fd ! k))"

definition moment :: "number list \<Rightarrow> nat \<Rightarrow> real" where
  "moment fd i = (\<Sum>k = 0..<i. weight (fd ! k) * real k)"

definition centroid_exact :: "number list \<Rightarrow> real" where
  "centroid_exact fd =
     (if energy fd (length fd) = 0 then 0
      else moment fd (length fd) / energy fd (length fd) / real (length fd - 1))"

text \<open>
  \<open>float32_bin\<close> holds of the bins that are \<open>-Infinity\<close> or finite with a positive
  value, if any, in the range of the positive finite single-precision numbers.
\<close>

definition float32_bin :: "number \<Rightarrow> bool" where
  "float32_bin b =
     (case b of
        Num x \<Rightarrow> x \<le> 0 \<or> (1 / 2 ^ 149 \<le> x \<and> x \<le> 2 ^ 128)
      | NegInf \<Rightarrow> True
      | PosInf \<Rightarrow> False
      | NaN \<Rightarrow> False)"

text \<open>
  The two factors by which a rounding can change a value, and what the loop keeps
  true of its two accumulators after \<open>i\<close> bins.
\<close>

definition one_minus_u :: real where "one_minus_u = 1 - 1 / 2 ^ 53"
definition one_plus_u :: real where "one_plus_u = 1 + 1 / 2 ^ 53"

definition acc_inv :: "number list \<Rightarrow> nat \<Rightarrow> real \<Rightarrow> real \<Rightarrow> bool" where
  "acc_inv fd i a d =
     (one_minus_u ^ (i + 1) * moment fd i \<le> a \<and> a \<le> one_plus_u ^ (i + 1) * moment fd i
      \<and> one_minus_u ^ (i + 1) * energy fd i \<le> d \<and> d \<le> one_plus_u ^ (i + 1) * energy fd i
      \<and> (a = 0 \<or> 1 / 2 ^ 149 \<le> a) \<and> (d = 0 \<or> 1 / 2 ^ 149 \<le> d)
      \<and> a \<le> real i * 2 ^ 140 \<and> d \<le> real i * 2 ^ 130)"

subsection \<open>The sampling loop of one subscription\<close>

text \<open>
  One run of the effect body owns the closure variable \<^verbatim>\<open>raf\<close>. The browser side is a
  list of the handles whose callback is still scheduled and a counter for the next
  handle; handles are positive, so \<^verbatim>\<open>cancelAnimationFrame(0)\<close> cancels nothing. What the
  subscription does to the outside (the two callbacks, frame requests and
  cancellations, \<^verbatim>\<open>ctx.resume()\<close>) is appended to \<open>trace\<close> in program order.
\<close>

datatype effect =
    SetMouth real
  | SetViseme number
  | RequestFrame nat
  | CancelFrame nat
  | Resume

record engine =
  raf :: nat
  scheduled :: "nat list"
  next_handle :: nat
  suspended :: bool
  trace :: "effect list"

definition setMouth :: "real \<Rightarrow> engine \<Rightarrow> engine" where
  "setMouth x s = s\<lparr>trace := trace s @ [SetMouth x]\<rparr>"

definition setViseme :: "number \<Rightarrow> engine \<Rightarrow> engine" where
  "setViseme x s = s\<lparr>trace := trace s @ [SetViseme x]\<rparr>"

definition requestAnimationFrame :: "engine \<Rightarrow> nat \<times> engine" where
  "requestAnimationFrame s =
     (next_handle s,
      s\<lparr>scheduled := scheduled s @ [next_handle s],
        next_handle := next_handle s + 1,
        trace := trace s @ [RequestFrame (next_handle s)]\<rparr>)"

definition cancelAnimationFrame :: "nat \<Rightarrow> engine \<Rightarrow> engine" where
  "cancelAnimationFrame h s =
     s\<lparr>scheduled := filter (\<lambda>x. x \<noteq> h) (scheduled s),
       trace := trace s @ [CancelFrame h]\<rparr>"

text \<open>
  \<open>hasViseme\<close> says whether the optional \<^verbatim>\<open>setViseme\<close> was supplied. The
  \<^verbatim>\<open>try { ... } catch (e) { }\<close> of \<^verbatim>\<open>tick\<close> is the \<open>Inl\<close> branch.
\<close>

definition tick :: "bool \<Rightarrow> 8 word list \<Rightarrow> exn + number list \<Rightarrow> engine \<Rightarrow> engine" where
  "tick hasViseme timeData getFloatFrequencyData s =
     (let s1 = setMouth (tick_amp timeData) s;
          s2 = (if hasViseme
                then (case computeSpectralCentroid getFloatFrequencyData of
                        Inr cent \<Rightarrow> setViseme cent s1
                      | Inl e \<Rightarrow> s1)
                else s1);
          (h, s3) = requestAnimationFrame s2
      in s3\<lparr>raf := h\<rparr>)"

definition onPlay :: "engine \<Rightarrow> engine" where
  "onPlay s =
     (let s1 = (if suspended s
                then s\<lparr>suspended := False, trace := trace s @ [Resume]\<rparr>
                else s);
          s2 = cancelAnimationFrame (raf s1) s1;
          (h, s3) = requestAnimationFrame s2
      in s3\<lparr>raf := h\<rparr>)"

definition onPause :: "bool \<Rightarrow> engine \<Rightarrow> engine" where
  "onPause hasViseme s =
     (let s1 = cancelAnimationFrame (raf s) s;
          s2 = setMouth 0 s1
      in if hasViseme then setViseme (Num 0) s2 else s2)"

text \<open>
  What can happen to a subscription: the three media events it listens to, an animation
  frame (with what the analyser would deliver during it), the platform suspending the
  audio context, and other code of the page taking a frame handle.
\<close>

datatype event =
    Play
  | Pause
  | Ended
  | Frame "8 word list" "exn + number list"
  | Suspend
  | OtherRequest

definition animationFrame :: "bool \<Rightarrow> 8 word list \<Rightarrow> exn + number list \<Rightarrow> engine \<Rightarrow> engine" where
  "animationFrame hasViseme timeData getFloatFrequencyData s =
     fold (\<lambda>h. tick hasViseme timeData getFloatFrequencyData) (scheduled s)
       (s\<lparr>scheduled := []\<rparr>)"

fun dispatch :: "bool \<Rightarrow> event \<Rightarrow> engine \<Rightarrow> engine" where
  "dispatch hasViseme Play s = onPlay s"
| "dispatch hasViseme Pause s = onPause hasViseme s"
| "dispatch hasViseme Ended s = onPause hasViseme s"
| "dispatch hasViseme (Frame timeData fr) s = animationFrame hasViseme timeData fr s"
| "dispatch hasViseme Suspend s = s\<lparr>suspended := True\<rparr>"
| "dispatch hasViseme OtherRequest s = s\<lparr>next_handle := next_handle s + 1\<rparr>"

text \<open>
  The state right after the effect body has run: \<^verbatim>\<open>let raf = 0\<close>, and
  \<^verbatim>\<open>if (!audio.paused && audio.currentTime > 0) onPlay()\<close>.
\<close>

definition attach :: "bool \<Rightarrow> bool \<Rightarrow> nat \<Rightarrow> engine" where
  "attach playing ctx_suspended handles_used =
     (let s = \<lparr>raf = 0, scheduled = [], next_handle = handles_used + 1,
                suspended = ctx_suspended, trace = []\<rparr>
      in if playing then onPlay s else s)"

definition run :: "bool \<Rightarrow> event list \<Rightarrow> engine \<Rightarrow> engine" where
  "run hasViseme es s = fold (dispatch hasViseme) es s"

text \<open>
  Between events a subscription is idle (nothing scheduled) or sampling (exactly the
  callback whose handle is in \<^verbatim>\<open>raf\<close> is scheduled).
\<close>

definition sampling_inv :: "engine \<Rightarrow> bool" where
  "sampling_inv s = ((scheduled s = [] \<or> scheduled s = [raf s]) \<and> raf s < next_handle s)"

text \<open>\<open>precedes a b xs\<close>: \<open>b\<close> occurs in \<open>xs\<close>, and \<open>a\<close> occurs before its first occurrence.\<close>

definition precedes :: "effect \<Rightarrow> effect \<Rightarrow> effect list \<Rightarrow> bool" where
  "precedes a b xs = (b \<in> set xs \<and> a \<in> set (takeWhile (\<lambda>x. x \<noteq> b) xs))"

subsection \<open>The graph cache\<close>

text \<open>
  \<^verbatim>\<open>const graph = new WeakMap<HTMLMediaElement, {ctx, src, analyser, freqData}>()\<close>.
  Media elements and the native objects are identified by numbers; \<open>built\<close> records
  every construction of an analysis graph (every \<^verbatim>\<open>ctx.createMediaElementSource(audio)\<close>),
  in order. \<open>audioRef = None\<close> is \<^verbatim>\<open>audioRef.current === null\<close>.
\<close>

record entry =
  ctx :: nat
  src :: nat
  analyser :: nat
  freqData_length :: nat

record registry =
  graph :: "nat \<rightharpoonup> entry"
  next_node :: nat
  built :: "(nat \<times> entry) list"

definition graph_attach :: "nat option \<Rightarrow> registry \<Rightarrow> registry \<times> entry option" where
  "graph_attach audioRef r =
     (case audioRef of
        None \<Rightarrow> (r, None)
      | Some audio \<Rightarrow>
          (case graph r audio of
             Some e \<Rightarrow> (r, Some e)
           | None \<Rightarrow>
               (let e = \<lparr>ctx = next_node r, src = next_node r + 1,
                          analyser = next_node r + 2, freqData_length = frequencyBinCount\<rparr>;
                    r' = r\<lparr>graph := (graph r)(audio \<mapsto> e),
                           next_node := next_node r + 3,
                           built := built r @ [(audio, e)]\<rparr>
                in (r', graph r' audio))))"

definition graph_init :: registry where
  "graph_init = \<lparr>graph = Map.empty, next_node = 0, built = []\<rparr>"

definition attach_all :: "nat option list \<Rightarrow> registry \<Rightarrow> registry" where
  "attach_all refs r = fold (\<lambda>a r. fst (graph_attach a r)) refs r"

definition taps :: "nat \<Rightarrow> registry \<Rightarrow> nat list" where
  "taps audio r = map (\<lambda>p. src (snd p)) (filter (\<lambda>p. fst p = audio) (built r))"

text \<open>
  The cache and the construction log agree: a media element has one construction, the
  one of its cached entry, or none.
\<close>

definition cache_inv :: "registry \<Rightarrow> bool" where
  "cache_inv r =
     (\<forall>a. filter (\<lambda>p. fst p = a) (built r) =
            (case graph r a of None \<Rightarrow> [] | Some e \<Rightarrow> [(a, e)]))"

subsection \<open>The viseme selector\<close>

text \<open>
  \<^verbatim>\<open>THREE.MathUtils.lerp(x, y, t)\<close> is \<^verbatim>\<open>(1 - t) * x + t * y\<close> and
  \<^verbatim>\<open>THREE.MathUtils.clamp(value, min, max)\<close> is \<^verbatim>\<open>Math.max(min, Math.min(max, value))\<close>.
\<close>

definition lerp :: "real \<Rightarrow> real \<Rightarrow> real \<Rightarrow> real" where
  "lerp x y t = (1 - t) * x + t * y"

definition clamp :: "real \<Rightarrow> real \<Rightarrow> real \<Rightarrow> real" where
  "clamp value mn mx = max mn (min mx value)"

text \<open>
  Reading an array out of range gives \<^verbatim>\<open>undefined\<close> (here \<open>None\<close>), and \<^verbatim>\<open>a || b\<close>
  is \<open>b\<close> when \<open>a\<close> is falsy: \<^verbatim>\<open>undefined\<close> or the number 0.
\<close>

definition js_index :: "nat list \<Rightarrow> nat \<Rightarrow> nat option" where
  "js_index xs i = (if i < length xs then Some (xs ! i) else None)"

definition js_or :: "nat option \<Rightarrow> nat option \<Rightarrow> nat option" where
  "js_or a b = (case a of None \<Rightarrow> b | Some n \<Rightarrow> if n = 0 then b else Some n)"

text \<open>
  The two local constants of the viseme branch:
  \<^verbatim>\<open>const interval = THREE.MathUtils.lerp(0.24, 0.06, THREE.MathUtils.clamp(v, 0, 1))\<close> and
  \<^verbatim>\<open>const pos = Math.floor(THREE.MathUtils.clamp(x, 0, 0.9999) * allShapeIndices.length)\<close>.
  The interval is \<^verbatim>\<open>(1 - t) * 0.24 + t * 0.06\<close> with every operation rounded; the
  literals are the doubles nearest to 0.24 and 0.06.
\<close>

definition lerp_double :: "real \<Rightarrow> real \<Rightarrow> real \<Rightarrow> real" where
  "lerp_double x y t = rnd (rnd (rnd (1 - t) * x) + rnd (t * y))"

definition interval :: "real \<Rightarrow> real" where
  "interval v = lerp_double (rnd 0.24) (rnd 0.06) (clamp v 0 1)"

definition pos :: "real \<Rightarrow> nat list \<Rightarrow> nat" where
  "pos x allShapeIndices = nat \<lfloor>clamp x 0 0.9999 * real (length allShapeIndices)\<rfloor>"

text \<open>
  The refs \<^verbatim>\<open>mouthSmooth\<close>, \<^verbatim>\<open>visemeTimer\<close> and \<^verbatim>\<open>currentViseme\<close> (\<open>None\<close> is
  \<^verbatim>\<open>null\<close>), and the part of the frame callback that reads and writes them. The
  animation-clip switching and the morph-target blending of the same callback neither
  read nor write the last two and only read the first.
\<close>

record selector =
  mouthSmooth :: real
  visemeTimer :: real
  currentViseme :: "nat option"

definition useFrame :: "nat list \<Rightarrow> real \<Rightarrow> real \<Rightarrow> real \<Rightarrow> selector \<Rightarrow> selector" where
  "useFrame allShapeIndices mouth viseme delta s0 =
     (let s = s0\<lparr>mouthSmooth := lerp (mouthSmooth s0) (clamp mouth 0 1) 0.35\<rparr>;
          v = mouthSmooth s;
          talking = (v > 0.02)
      in if talking
         then (if viseme > 0 \<and> length allShapeIndices > 0
               then s\<lparr>currentViseme :=
                        js_or (js_index allShapeIndices (pos viseme allShapeIndices))
                              (js_index allShapeIndices 0)\<rparr>
               else (let s1 = s\<lparr>visemeTimer := visemeTimer s + delta\<rparr>
                     in if visemeTimer s1 \<ge> interval v
                        then (let s2 = s1\<lparr>visemeTimer := 0\<rparr>
                              in if length allShapeIndices > 0
                                 then s2\<lparr>currentViseme :=
                                        js_or (js_index allShapeIndices (pos v allShapeIndices))
                                              (js_index allShapeIndices 0)\<rparr>
                                 else s2\<lparr>currentViseme := None\<rparr>)
                        else s1))
         else s\<lparr>visemeTimer := 0, currentViseme := None\<rparr>)"

definition selector_init :: selector where
  "selector_init = \<lparr>mouthSmooth = 0, visemeTimer = 0, currentViseme = None\<rparr>"

record props =
  p_shapes :: "nat list"
  p_mouth :: real
  p_viseme :: real
  p_delta :: real

definition frames :: "props list \<Rightarrow> selector \<Rightarrow> selector" where
  "frames ps s = fold (\<lambda>p. useFrame (p_shapes p) (p_mouth p) (p_viseme p) (p_delta p)) ps s"

section \<open>Properties\<close>

subsection \<open>Rounding\<close>

lemma round_even_err: "\<bar>of_int (round_even y) - y\<bar> \<le> 1 / 2"
proof -
  have "of_int \<lfloor>y\<rfloor> \<le> y" "y < of_int \<lfloor>y\<rfloor> + 1" by linarith+
  then show ?thesis by (auto simp: round_even_def Let_def)
qed

lemma round_even_of_int [simp]: "round_even (of_int k) = k"
  by (simp add: round_even_def)

lemma round_even_nonneg: "0 \<le> y \<Longrightarrow> 0 \<le> round_even y"
  by (auto simp: round_even_def Let_def)

lemma round_even_mono: "y \<le> z \<Longrightarrow> round_even y \<le> round_even z"
proof -
  assume yz: "y \<le> z"
  have fm: "\<lfloor>y\<rfloor> \<le> \<lfloor>z\<rfloor>" using yz by (rule floor_mono)
  show ?thesis
  proof (cases "\<lfloor>y\<rfloor> = \<lfloor>z\<rfloor>")
    case True
    with yz show ?thesis by (auto simp: round_even_def Let_def)
  next
    case False
    with fm have "\<lfloor>y\<rfloor> + 1 \<le> \<lfloor>z\<rfloor>" by simp
    moreover have "round_even y \<le> \<lfloor>y\<rfloor> + 1" by (auto simp: round_even_def Let_def)
    moreover have "\<lfloor>z\<rfloor> \<le> round_even z" by (auto simp: round_even_def Let_def)
    ultimately show ?thesis by linarith
  qed
qed

lemma pow2_pos [simp]: "0 < (2::real) powi k"
  by (simp add: power_int_def)

lemma rnd_abs_err: "\<bar>rnd x - x\<bar> \<le> 2 powi ulp_exp x / 2"
proof -
  let ?p = "(2::real) powi ulp_exp x"
  have p: "0 < ?p" by simp
  have "\<bar>rnd x - x\<bar> = \<bar>of_int (round_even (x / ?p)) - x / ?p\<bar> * ?p"
  proof -
    have "rnd x - x = (of_int (round_even (x / ?p)) - x / ?p) * ?p"
      using p by (simp add: rnd_def field_simps)
    then show ?thesis using p by (simp add: abs_mult)
  qed
  also have "\<dots> \<le> 1 / 2 * ?p"
    using p round_even_err [of "x / ?p"] by (intro mult_right_mono) simp_all
  finally show ?thesis by simp
qed

lemma rnd_zero [simp]: "rnd 0 = 0"
  using round_even_of_int [of 0] by (simp add: rnd_def)

lemma rnd_nonneg: "0 \<le> x \<Longrightarrow> 0 \<le> rnd x"
  by (simp add: rnd_def round_even_nonneg)

lemma pow2_scale: "2 powi k * subnormal_scale = 2 powi (k + 1074)"
proof -
  have a: "(2::real) powi (k + 1074) = 2 powi k * 2 powi 1074"
    by (rule power_int_add) simp
  show ?thesis unfolding subnormal_scale_def by (simp only: a power_int_numeral)
qed

lemma scale_pos [simp]: "0 < subnormal_scale"
  unfolding subnormal_scale_def by (rule zero_less_power) simp

lemma pow2_nat: "0 \<le> k \<Longrightarrow> (2::real) powi k = of_int (2 ^ nat k)"
  by (simp add: power_int_def)

lemma scaled_floor_less:
  assumes "\<bar>x\<bar> < 2 powi k" and "0 \<le> k + 1074"
  shows "\<lfloor>\<bar>x\<bar> * subnormal_scale\<rfloor> < 2 ^ nat (k + 1074)"
proof -
  have "\<bar>x\<bar> * subnormal_scale < 2 powi k * subnormal_scale"
    using assms(1) by (intro mult_strict_right_mono) simp_all
  also have "\<dots> = of_int (2 ^ nat (k + 1074))"
    by (simp only: pow2_scale pow2_nat [OF assms(2)])
  finally show ?thesis by (simp only: floor_less_iff)
qed

lemma scaled_floor_ge:
  assumes "2 powi k \<le> \<bar>x\<bar>" and "0 \<le> k + 1074"
  shows "2 ^ nat (k + 1074) \<le> \<lfloor>\<bar>x\<bar> * subnormal_scale\<rfloor>"
proof -
  have "of_int (2 ^ nat (k + 1074)) = 2 powi k * subnormal_scale"
    by (simp only: pow2_scale pow2_nat [OF assms(2)])
  also have "\<dots> \<le> \<bar>x\<bar> * subnormal_scale"
    using assms(1) less_imp_le [OF scale_pos] by (intro mult_right_mono)
  finally show ?thesis by (simp only: le_floor_iff)
qed

lemma ulp_exp_le:
  assumes "\<bar>x\<bar> < 2 powi k" and "- 1021 \<le> k"
  shows "ulp_exp x \<le> k - 53"
proof -
  have k: "0 \<le> k + 1074" using assms(2) by simp
  from scaled_floor_less [OF assms(1) k]
  have "bitlen \<lfloor>\<bar>x\<bar> * subnormal_scale\<rfloor> \<le> k + 1074"
    using k by (simp add: bitlen_le_iff_power)
  then show ?thesis using assms(2) by (simp add: ulp_exp_def)
qed

lemma rnd_abs_err_pow:
  assumes "\<bar>x\<bar> < 2 powi k" and "- 1021 \<le> k"
  shows "\<bar>rnd x - x\<bar> \<le> 2 powi (k - 54)"
proof -
  have "(2::real) powi ulp_exp x \<le> 2 powi (k - 53)"
    using ulp_exp_le [OF assms] by (intro power_int_increasing) simp_all
  then have "(2::real) powi ulp_exp x / 2 \<le> 2 powi (k - 53) / 2" by simp
  also have "\<dots> = 2 powi (k - 54)"
    using power_int_add [of "2::real" "k - 54" 1] by simp
  finally show ?thesis using rnd_abs_err [of x] by linarith
qed

lemma ulp_exp_normal:
  assumes "2 powi (- 1022) \<le> \<bar>x\<bar>"
  shows "2 powi (ulp_exp x + 52) \<le> \<bar>x\<bar>"
proof -
  let ?n = "\<lfloor>\<bar>x\<bar> * subnormal_scale\<rfloor>"
  have n52: "2 ^ 52 \<le> ?n" using scaled_floor_ge [OF assms] by simp
  moreover have "(0::int) < 2 ^ 52" by simp
  ultimately have npos: "0 < ?n" by linarith
  have b53: "53 \<le> bitlen ?n" using n52 by (simp add: bitlen_ge_iff_power)
  then have ue: "ulp_exp x = bitlen ?n - 1127" by (simp add: ulp_exp_def)
  have "\<not> \<bar>x\<bar> < 2 powi (bitlen ?n - 1075)"
  proof
    assume "\<bar>x\<bar> < 2 powi (bitlen ?n - 1075)"
    from scaled_floor_less [OF this] b53 have "?n < 2 ^ nat (bitlen ?n - 1)" by simp
    with bitlen_bounds [OF npos] show False by simp
  qed
  then show ?thesis by (simp add: ue)
qed

lemma rnd_rel_err:
  assumes "2 powi (- 1022) \<le> \<bar>x\<bar>"
  shows "\<bar>rnd x - x\<bar> \<le> \<bar>x\<bar> / 2 ^ 53"
proof -
  have "(2::real) powi ulp_exp x / 2 = 2 powi (ulp_exp x + 52) / 2 ^ 53"
    by (simp add: power_int_add)
  also have "\<dots> \<le> \<bar>x\<bar> / 2 ^ 53"
    using ulp_exp_normal [OF assms] by (intro divide_right_mono) simp_all
  finally show ?thesis using rnd_abs_err [of x] by linarith
qed

lemma ulp_exp_ge:
  assumes "2 powi (e + 52) \<le> \<bar>x\<bar>" and "- 1074 \<le> e"
  shows "e \<le> ulp_exp x"
proof -
  have e: "0 \<le> e + 52 + 1074" using assms(2) by simp
  from scaled_floor_ge [OF assms(1) e]
  have "2 ^ nat (e + 1126) \<le> \<lfloor>\<bar>x\<bar> * subnormal_scale\<rfloor>" by (simp add: add.commute add.left_commute)
  moreover have "nat (e + 1127) - 1 = nat (e + 1126)" using e by simp
  ultimately have "e + 1127 \<le> bitlen \<lfloor>\<bar>x\<bar> * subnormal_scale\<rfloor>"
    by (simp add: bitlen_ge_iff_power)
  then show ?thesis by (simp add: ulp_exp_def)
qed

lemma ulp_exp_eqI:
  assumes "2 powi (e + 52) \<le> \<bar>x\<bar>" and "\<bar>x\<bar> < 2 powi (e + 53)" and "- 1074 \<le> e"
  shows "ulp_exp x = e"
proof -
  have "ulp_exp x \<le> e" using ulp_exp_le [OF assms(2)] assms(3) by simp
  moreover have "e \<le> ulp_exp x" by (rule ulp_exp_ge [OF assms(1,3)])
  ultimately show ?thesis by simp
qed

lemma rnd_eqI:
  assumes "2 powi (e + 52) \<le> \<bar>x\<bar>" and "\<bar>x\<bar> < 2 powi (e + 53)" and "- 1074 \<le> e"
  shows "rnd x = of_int (round_even (x / 2 powi e)) * 2 powi e"
  by (simp add: rnd_def ulp_exp_eqI [OF assms])

lemma rnd_near:
  assumes "- b < x" and "x < b" and "b = 2 powi k" and "- 1021 \<le> k" and "d = 2 powi (k - 54)"
  shows "x - d \<le> rnd x \<and> rnd x \<le> x + d"
proof -
  have "\<bar>x\<bar> < 2 powi k" using assms(1-3) by (simp add: abs_less_iff)
  from rnd_abs_err_pow [OF this assms(4)] show ?thesis
    unfolding assms(5) by (simp add: abs_le_iff)
qed

lemma threshold_powi: "overflow_threshold = 2 powi 1024"
  unfolding overflow_threshold_def by (simp only: power_int_numeral)

lemma pow2_double: "(2::real) powi k + 2 powi k = 2 powi (k + 1)"
  using power_int_add [of "2::real" k 1] by simp

lemma fl_Num:
  assumes "\<bar>x\<bar> < 2 powi k" and "- 1021 \<le> k" and "k \<le> 1023"
  shows "fl x = Num (rnd x)"
proof -
  have "(2::real) powi (k - 54) \<le> 2 powi k" by (intro power_int_increasing) simp_all
  with rnd_abs_err_pow [OF assms(1,2)] assms(1)
  have "\<bar>rnd x\<bar> < 2 powi k + 2 powi k" by linarith
  also have "\<dots> = 2 powi (k + 1)" by (rule pow2_double)
  also have "\<dots> \<le> 2 powi 1024" using assms(3) by (intro power_int_increasing) simp_all
  finally have "\<bar>rnd x\<bar> < overflow_threshold" by (simp only: threshold_powi)
  then show ?thesis by (auto simp: fl_def Let_def)
qed

lemma rnd_rel:
  assumes "x = 0 \<or> 2 powi (- 1022) \<le> x"
  shows "(1 - 1 / 2 ^ 53) * x \<le> rnd x \<and> rnd x \<le> (1 + 1 / 2 ^ 53) * x"
proof (cases "x = 0")
  case True
  then show ?thesis by simp
next
  case False
  with assms have x: "2 powi (- 1022) \<le> x" by simp
  have "0 < (2::real) powi (- 1022)" by (rule pow2_pos)
  with x have pos: "0 < x" by linarith
  then have "2 powi (- 1022) \<le> \<bar>x\<bar>" using x by simp
  from rnd_rel_err [OF this] pos have "\<bar>rnd x - x\<bar> \<le> x / 2 ^ 53" by simp
  then have "x - x / 2 ^ 53 \<le> rnd x \<and> rnd x \<le> x + x / 2 ^ 53"
    by (simp only: abs_diff_le_iff)
  moreover have "(1 - 1 / 2 ^ 53) * x = x - x / 2 ^ 53" by (simp only: left_diff_distrib mult_1 times_divide_eq_left)
  moreover have "(1 + 1 / 2 ^ 53) * x = x + x / 2 ^ 53" by (simp only: distrib_right mult_1 times_divide_eq_left)
  ultimately show ?thesis by (simp only:)
qed

lemma rnd_ge_pow2:
  assumes "2 powi k \<le> x" and "- 1022 \<le> k"
  shows "2 powi k \<le> rnd x"
proof -
  have "0 < (2::real) powi k" by (rule pow2_pos)
  with assms(1) have pos: "0 < x" by linarith
  then have ax: "\<bar>x\<bar> = x" by simp
  define e where "e = ulp_exp x"
  have "2 powi (k - 52 + 52) \<le> \<bar>x\<bar>" using assms(1) ax by simp
  from ulp_exp_ge [OF this] assms(2) have ek: "k - 52 \<le> e" by (simp add: e_def)
  have "(2::real) powi (- 1022) \<le> 2 powi k" using assms(2) by (intro power_int_increasing) simp_all
  with assms(1) ax have "2 powi (- 1022) \<le> \<bar>x\<bar>" by linarith
  from ulp_exp_normal [OF this] ax have lo: "2 powi (e + 52) \<le> x" by (simp add: e_def)
  have "of_int (2 ^ 52) = (2::real) powi (e + 52) / 2 powi e"
    using power_int_add [of "2::real" e 52] by simp
  also have "\<dots> \<le> x / 2 powi e" using lo by (intro divide_right_mono) simp_all
  finally have "round_even (of_int (2 ^ 52)) \<le> round_even (x / 2 powi e)"
    by (rule round_even_mono)
  then have "(2::int) ^ 52 \<le> round_even (x / 2 powi e)" by (simp only: round_even_of_int)
  then have "(2::real) ^ 52 \<le> of_int (round_even (x / 2 powi e))"
    by (metis of_int_le_iff of_int_numeral of_int_power)
  then have "2 ^ 52 * 2 powi e \<le> rnd x"
    unfolding rnd_def e_def [symmetric] by (intro mult_right_mono) simp_all
  moreover have "(2::real) ^ 52 * 2 powi e = 2 powi (e + 52)"
    using power_int_add [of "2::real" e 52] by simp
  moreover have "(2::real) powi k \<le> 2 powi (e + 52)"
    using ek by (intro power_int_increasing) simp_all
  ultimately show ?thesis by linarith
qed

lemma threshold_pos: "0 < overflow_threshold"
  unfolding overflow_threshold_def by (rule zero_less_power) simp

lemma fl_zero [simp]: "fl 0 = Num 0"
  using threshold_pos by (simp add: fl_def)

lemma fl_eqI:
  assumes "2 powi (e + 52) \<le> \<bar>x\<bar>" and "\<bar>x\<bar> < 2 powi (e + 53)" and "- 1074 \<le> e" and "e \<le> 970"
  shows "fl x = Num (of_int (round_even (x / 2 powi e)) * 2 powi e)"
proof -
  have "fl x = Num (rnd x)" using assms(3,4) by (intro fl_Num [OF assms(2)]) simp_all
  then show ?thesis by (simp only: rnd_eqI [OF assms(1-3)])
qed

subsection \<open>The loudness loop as a sum\<close>

declare tick_loop.simps [simp del]
declare centroid_loop.simps [simp del]

lemma tick_loop_sum:
  "tick_loop timeData i sm =
     sm + (\<Sum>k = i..<length timeData. \<bar>(real (unat (timeData ! k)) - 128) / 128\<bar>)"
proof (induction timeData i sm rule: tick_loop.induct)
  case (1 timeData i sm)
  show ?case
  proof (cases "i < length timeData")
    case True
    from "1.IH" [OF True refl] True show ?thesis
      by (subst tick_loop.simps) (simp add: sum.atLeast_Suc_lessThan Let_def)
  next
    case False
    then show ?thesis
      by (subst tick_loop.simps) simp
  qed
qed

subsection \<open>Loudness\<close>

text \<open>
  C1. For every byte waveform of the 2048-sample window, the loudness that \<open>tick\<close>
  passes to \<^verbatim>\<open>setMouth\<close> is the mean of \<open>\<bar>(sample - 128) / 128\<bar>\<close> over all samples,
  times 8, clamped to \<open>[0, 1]\<close>. It lies in \<open>[0, 1]\<close>, and it is the effect that
  \<open>tick\<close> emits first whatever the state of the subscription: nothing of an earlier
  frame enters it.
\<close>

theorem tick_amp_loudness:
  assumes "length timeData = fftSize"
  shows "tick_amp timeData =
           max 0 (min 1 (8 * ((\<Sum>k = 0..<fftSize. \<bar>(real (unat (timeData ! k)) - 128) / 128\<bar>)
                              / real fftSize)))
         \<and> 0 \<le> tick_amp timeData \<and> tick_amp timeData \<le> 1
         \<and> (\<forall>hv fr s. trace (tick hv timeData fr s) ! length (trace s)
               = SetMouth (tick_amp timeData))"
proof -
  let ?S = "\<Sum>k = 0..<fftSize. \<bar>(real (unat (timeData ! k)) - 128) / 128\<bar>"
  have nonneg: "0 \<le> ?S" by (rule sum_nonneg) simp
  have amp: "tick_amp timeData = min 1 (?S / real fftSize * 8)"
    using assms by (simp add: tick_amp_def tick_loop_sum Let_def)
  have ge: "0 \<le> ?S / real fftSize * 8" using nonneg by simp
  have tr: "trace (tick hv timeData fr s) ! length (trace s) = SetMouth (tick_amp timeData)" for hv fr s
    by (simp add: tick_def setMouth_def setViseme_def requestAnimationFrame_def Let_def
        nth_append split: sum.splits)
  from amp ge tr show ?thesis by (simp add: mult.commute)
qed

theorem tick_amp_loudness_witness:
  "length (replicate 2048 (192 :: 8 word)) = fftSize
   \<and> tick_amp (replicate 2048 192) = 1
   \<and> tick_amp (replicate 2048 (130 :: 8 word)) = 1 / 8"
proof -
  have l: "length (replicate 2048 (b :: 8 word)) = fftSize" for b by (simp add: fftSize_def)
  have "tick_amp (replicate 2048 192) = 1"
    using tick_amp_loudness [OF l [of 192]] by (simp add: fftSize_def)
  moreover have "tick_amp (replicate 2048 130) = 1 / 8"
    using tick_amp_loudness [OF l [of 130]] by (simp add: fftSize_def)
  ultimately show ?thesis using l by simp
qed

subsection \<open>Spectral centroid\<close>

lemma lo_hi: "0 < one_minus_u" "one_minus_u \<le> 1" "1 \<le> one_plus_u" "0 < one_plus_u"
  by (simp_all add: one_minus_u_def one_plus_u_def)

lemma rnd_lo_hi:
  assumes "x = 0 \<or> 1 / 2 ^ 1022 \<le> x"
  shows "one_minus_u * x \<le> rnd x" and "rnd x \<le> one_plus_u * x"
proof -
  have "x = 0 \<or> 2 powi (- 1022) \<le> x"
    using assms by (simp only: power_int_minus_divide power_int_numeral)
  from rnd_rel [OF this] show "one_minus_u * x \<le> rnd x" and "rnd x \<le> one_plus_u * x"
    unfolding one_minus_u_def one_plus_u_def by blast+
qed

lemma acc_step:
  assumes inv: "one_minus_u ^ j * S \<le> d" "d \<le> one_plus_u ^ j * S"
    and w: "one_minus_u * W \<le> w'" "w' \<le> one_plus_u * W" "0 \<le> W" "0 \<le> S" "1 \<le> j"
    and r: "one_minus_u * (d + w') \<le> d'" "d' \<le> one_plus_u * (d + w')"
  shows "one_minus_u ^ (j + 1) * (S + W) \<le> d'" and "d' \<le> one_plus_u ^ (j + 1) * (S + W)"
proof -
  have "one_minus_u ^ j \<le> one_minus_u ^ 1" using lo_hi w(5) by (intro power_decreasing) simp_all
  then have "one_minus_u ^ j * W \<le> one_minus_u * W" using w(3) by (intro mult_right_mono) simp_all
  with inv(1) w(1) have "one_minus_u ^ j * (S + W) \<le> d + w'" by (simp add: distrib_left)
  then have "one_minus_u * (one_minus_u ^ j * (S + W)) \<le> one_minus_u * (d + w')"
    using lo_hi by (intro mult_left_mono) simp_all
  with r(1) show "one_minus_u ^ (j + 1) * (S + W) \<le> d'" by (simp add: mult.assoc)
  have "one_plus_u ^ 1 \<le> one_plus_u ^ j" using lo_hi w(5) by (intro power_increasing) simp_all
  then have "one_plus_u * W \<le> one_plus_u ^ j * W" using w(3) by (intro mult_right_mono) simp_all
  with inv(2) w(2) have "d + w' \<le> one_plus_u ^ j * (S + W)" by (simp add: distrib_left)
  then have "one_plus_u * (d + w') \<le> one_plus_u * (one_plus_u ^ j * (S + W))"
    using lo_hi by (intro mult_left_mono) simp_all
  with r(2) show "d' \<le> one_plus_u ^ (j + 1) * (S + W)" by (simp add: mult.assoc)
qed

lemma bin_weight:
  assumes "float32_bin b"
  shows "Math_max (Num 0) b = Num (weight b)"
    and "weight b = 0 \<or> (1 / 2 ^ 149 \<le> weight b \<and> weight b \<le> 2 ^ 128)"
  using assms by (cases b; auto simp: float32_bin_def weight_def max_def)+

lemma rnd_fl:
  assumes "0 \<le> x" and "x < b" and "b = 2 powi k" and "- 1021 \<le> k" and "k \<le> 1023"
    and "d = 2 powi (k - 54)"
  shows "fl x = Num (rnd x)" and "rnd x \<le> x + d"
proof -
  have "\<bar>x\<bar> < 2 powi k" using assms(1-3) by simp
  from fl_Num [OF this assms(4,5)] show "fl x = Num (rnd x)" .
  have "- b < x" using assms(1,2) by linarith
  from rnd_near [OF this assms(2,3,4,6)] show "rnd x \<le> x + d" by simp
qed

lemma rnd_tiny:
  assumes "x = 0 \<or> 1 / 2 ^ 149 \<le> x"
  shows "rnd x = 0 \<or> 1 / 2 ^ 149 \<le> rnd x"
proof (cases "x = 0")
  case True
  then show ?thesis by simp
next
  case False
  with assms have "2 powi (- 149) \<le> x"
    by (simp only: power_int_minus_divide power_int_numeral) simp
  from rnd_ge_pow2 [OF this] have "2 powi (- 149) \<le> rnd x" by simp
  then show ?thesis by (simp only: power_int_minus_divide power_int_numeral) simp
qed

lemma tiny_normal: "x = 0 \<or> 1 / 2 ^ 149 \<le> x \<Longrightarrow> x = 0 \<or> 1 / 2 ^ 1022 \<le> (x::real)"
proof -
  assume a: "x = 0 \<or> 1 / 2 ^ 149 \<le> x"
  have "(1::real) / 2 ^ 1022 \<le> 1 / 2 ^ 149"
    by (intro divide_left_mono power_increasing) simp_all
  with a show ?thesis by linarith
qed

lemma moment_Suc: "moment fd (i + 1) = moment fd i + weight (fd ! i) * real i"
  by (simp add: moment_def)

lemma energy_Suc: "energy fd (i + 1) = energy fd i + weight (fd ! i)"
  by (simp add: energy_def)

lemma weight_nonneg: "0 \<le> weight b"
  by (cases b) (simp_all add: weight_def)

lemma moment_nonneg: "0 \<le> moment fd i"
  unfolding moment_def by (intro sum_nonneg mult_nonneg_nonneg weight_nonneg) simp

lemma energy_nonneg: "0 \<le> energy fd i"
  unfolding energy_def by (intro sum_nonneg weight_nonneg)

lemma loop_step:
  assumes bin: "float32_bin (fd ! i)" and i: "i < 1024" and inv: "acc_inv fd i a d"
  shows "\<exists>a' d'. num_add (Num a) (num_mul (Math_max (Num 0) (fd ! i)) (Num (real i))) = Num a'
           \<and> num_add (Num d) (Math_max (Num 0) (fd ! i)) = Num d'
           \<and> acc_inv fd (i + 1) a' d'"
proof -
  define w where "w = weight (fd ! i)"
  define x1 where "x1 = w * real i"
  define pr where "pr = rnd x1"
  define a' where "a' = rnd (a + pr)"
  define d' where "d' = rnd (d + w)"
  have mx: "Math_max (Num 0) (fd ! i) = Num w"
    and w: "w = 0 \<or> (1 / 2 ^ 149 \<le> w \<and> w \<le> 2 ^ 128)"
    using bin_weight [OF bin] by (simp_all add: w_def)
  have ri: "real i \<le> 1023" using i by simp
  have w0: "0 \<le> w" using w by auto
  have wcap: "w \<le> 2 ^ 128" using w by auto
  have a0: "0 \<le> a" and d0: "0 \<le> d" using inv by (auto simp: acc_inv_def)
  have acap: "a \<le> real i * 2 ^ 140" and dcap: "d \<le> real i * 2 ^ 130"
    using inv by (auto simp: acc_inv_def)
  have x1_0: "0 \<le> x1" using w0 by (simp add: x1_def)
  have x1_cap: "x1 \<le> 2 ^ 128 * 1023"
    unfolding x1_def using w0 wcap ri by (intro mult_mono) simp_all
  have x1_tiny: "x1 = 0 \<or> 1 / 2 ^ 149 \<le> x1"
  proof (cases "w = 0 \<or> i = 0")
    case True
    then show ?thesis by (auto simp: x1_def)
  next
    case False
    then have "1 / 2 ^ 149 \<le> w" "1 \<le> real i" using w by auto
    then have "1 / 2 ^ 149 * 1 \<le> w * real i" by (intro mult_mono) simp_all
    then show ?thesis by (simp add: x1_def)
  qed
  have f1: "fl x1 = Num pr" and pr_cap: "pr \<le> x1 + 2 ^ 85"
    unfolding pr_def using x1_0 x1_cap
    by (intro rnd_fl [where b = "2 ^ 139" and k = 139 and d = "2 ^ 85"]; simp)+
  have pr_rel: "one_minus_u * x1 \<le> pr" "pr \<le> one_plus_u * x1"
    unfolding pr_def using rnd_lo_hi [OF tiny_normal [OF x1_tiny]] by simp_all
  have pr_tiny: "pr = 0 \<or> 1 / 2 ^ 149 \<le> pr"
    unfolding pr_def by (rule rnd_tiny [OF x1_tiny])
  have pr0: "0 \<le> pr" using pr_tiny by auto
  have x2_tiny: "a + pr = 0 \<or> 1 / 2 ^ 149 \<le> a + pr"
    using inv pr_tiny a0 pr0 by (auto simp: acc_inv_def)
  have x2_cap: "a + pr < 2 ^ 151" using acap pr_cap x1_cap ri by simp
  have f2: "fl (a + pr) = Num a'" and a'_cap: "a' \<le> a + pr + 2 ^ 97"
    unfolding a'_def using a0 pr0 x2_cap
    by (intro rnd_fl [where b = "2 ^ 151" and k = 151 and d = "2 ^ 97"]; simp)+
  have a'_rel: "one_minus_u * (a + pr) \<le> a'" "a' \<le> one_plus_u * (a + pr)"
    unfolding a'_def using rnd_lo_hi [OF tiny_normal [OF x2_tiny]] by simp_all
  have a'_tiny: "a' = 0 \<or> 1 / 2 ^ 149 \<le> a'"
    unfolding a'_def by (rule rnd_tiny [OF x2_tiny])
  have x3_tiny: "d + w = 0 \<or> 1 / 2 ^ 149 \<le> d + w"
    using inv w d0 w0 by (auto simp: acc_inv_def)
  have x3_cap: "d + w < 2 ^ 141" using dcap wcap ri by simp
  have f3: "fl (d + w) = Num d'" and d'_cap: "d' \<le> d + w + 2 ^ 87"
    unfolding d'_def using d0 w0 x3_cap
    by (intro rnd_fl [where b = "2 ^ 141" and k = 141 and d = "2 ^ 87"]; simp)+
  have d'_rel: "one_minus_u * (d + w) \<le> d'" "d' \<le> one_plus_u * (d + w)"
    unfolding d'_def using rnd_lo_hi [OF tiny_normal [OF x3_tiny]] by simp_all
  have d'_tiny: "d' = 0 \<or> 1 / 2 ^ 149 \<le> d'"
    unfolding d'_def by (rule rnd_tiny [OF x3_tiny])
  have w_rel: "one_minus_u * w \<le> w" "w \<le> one_plus_u * w"
    using w0 lo_hi by (simp_all add: mult_left_le_one_le mult_le_cancel_right1)
  have mom: "one_minus_u ^ (i + 1 + 1) * (moment fd i + x1) \<le> a'" "a' \<le> one_plus_u ^ (i + 1 + 1) * (moment fd i + x1)"
    using inv pr_rel x1_0 moment_nonneg [of fd i] a'_rel
    by (intro acc_step [where d = a and w' = pr]; simp add: acc_inv_def)+
  have en: "one_minus_u ^ (i + 1 + 1) * (energy fd i + w) \<le> d'" "d' \<le> one_plus_u ^ (i + 1 + 1) * (energy fd i + w)"
    using inv w_rel w0 energy_nonneg [of fd i] d'_rel
    by (intro acc_step [where d = d and w' = w]; simp add: acc_inv_def)+
  have caps: "a' \<le> real (i + 1) * 2 ^ 140" "d' \<le> real (i + 1) * 2 ^ 130"
    using a'_cap acap pr_cap x1_cap d'_cap dcap wcap by simp_all
  have "acc_inv fd (i + 1) a' d'"
    unfolding acc_inv_def moment_Suc energy_Suc w_def [symmetric] x1_def [symmetric]
    using mom en a'_tiny d'_tiny caps by blast
  moreover have "num_add (Num a) (num_mul (Math_max (Num 0) (fd ! i)) (Num (real i))) = Num a'"
    by (simp add: mx f1 f2 x1_def [symmetric])
  moreover have "num_add (Num d) (Math_max (Num 0) (fd ! i)) = Num d'"
    by (simp add: mx f3)
  ultimately show ?thesis by blast
qed

lemma loop_inv:
  assumes "list_all float32_bin fd" and "length fd \<le> 1024" and "i \<le> length fd"
    and "acc_inv fd i a d"
  shows "\<exists>a' d'. centroid_loop fd i (Num a, Num d) = (Num a', Num d')
           \<and> acc_inv fd (length fd) a' d'"
  using assms(3,4)
proof (induction "length fd - i" arbitrary: i a d)
  case 0
  then have "i = length fd" by simp
  with 0 show ?case by (subst centroid_loop.simps) simp
next
  case (Suc n)
  then have i: "i < length fd" by simp
  with assms(1) have bin: "float32_bin (fd ! i)" by (simp add: list_all_length)
  from i assms(2) have "i < 1024" by simp
  from loop_step [OF bin this Suc.prems(2)] obtain a' d' where
    s: "num_add (Num a) (num_mul (Math_max (Num 0) (fd ! i)) (Num (real i))) = Num a'"
       "num_add (Num d) (Math_max (Num 0) (fd ! i)) = Num d'"
       "acc_inv fd (i + 1) a' d'"
    by blast
  have "n = length fd - (i + 1)" using Suc.hyps(2) by simp
  from Suc.hyps(1) [OF this _ s(3)] i obtain a'' d'' where
    "centroid_loop fd (i + 1) (Num a', Num d') = (Num a'', Num d'')"
    "acc_inv fd (length fd) a'' d''"
    by auto
  with i s show ?case by (subst centroid_loop.simps) (simp add: Let_def)
qed

lemma acc_inv_start: "acc_inv fd 0 0 0"
  by (simp add: acc_inv_def moment_def energy_def)

lemma hi_pow: "real n < 2 ^ 53 \<Longrightarrow> one_plus_u ^ n * (1 - real n / 2 ^ 53) \<le> 1"
proof (induction n)
  case 0
  then show ?case by simp
next
  case (Suc n)
  then have ih: "one_plus_u ^ n * (1 - real n / 2 ^ 53) \<le> 1" by simp
  have "one_plus_u * (1 - real (Suc n) / 2 ^ 53) \<le> 1 - real n / 2 ^ 53"
    by (simp add: one_plus_u_def field_simps)
  moreover have "0 \<le> one_plus_u ^ n" using lo_hi by simp
  ultimately have "one_plus_u ^ n * (one_plus_u * (1 - real (Suc n) / 2 ^ 53)) \<le> one_plus_u ^ n * (1 - real n / 2 ^ 53)"
    by (intro mult_left_mono)
  with ih have "one_plus_u ^ n * (one_plus_u * (1 - real (Suc n) / 2 ^ 53)) \<le> 1" by linarith
  moreover have "one_plus_u ^ Suc n * (1 - real (Suc n) / 2 ^ 53) = one_plus_u ^ n * (one_plus_u * (1 - real (Suc n) / 2 ^ 53))"
    by (simp only: power_Suc2 mult.assoc)
  ultimately show ?case by (simp only:)
qed

lemma lo_pow: "1 - real n / 2 ^ 53 \<le> one_minus_u ^ n"
  using Bernoulli_inequality [of "- (1 / 2 ^ 53)" n] by (simp add: one_minus_u_def)

lemma two_more: "x ^ 1027 = x * x * x ^ 1025" for x :: real
proof -
  have "x ^ (2 + 1025) = x ^ 2 * x ^ 1025" by (rule power_add)
  moreover have "(2 + 1025 :: nat) = 1027" by simp
  ultimately show ?thesis by (simp only: power2_eq_square)
qed

lemma factor_hi: "one_plus_u ^ 1027 \<le> (1 + 1 / 2 ^ 41) * one_minus_u ^ 1025"
proof -
  have a: "one_plus_u ^ 1027 * (1 - 1027 / 2 ^ 53) \<le> 1" using hi_pow [of 1027] by simp
  have b: "1 - 1025 / 2 ^ 53 \<le> one_minus_u ^ 1025" using lo_pow [of 1025] by simp
  from a b show ?thesis by simp
qed

lemma factor_lo: "(1 - 1 / 2 ^ 41) * one_plus_u ^ 1025 \<le> one_minus_u ^ 1027"
proof -
  have a: "one_plus_u ^ 1025 * (1 - 1025 / 2 ^ 53) \<le> 1" using hi_pow [of 1025] by simp
  have b: "1 - 1027 / 2 ^ 53 \<le> one_minus_u ^ 1027" using lo_pow [of 1027] by simp
  from a b show ?thesis by simp
qed

lemma quotient_bounds:
  fixes S T L H A D c1 c m dl :: real
  assumes S: "0 < S" and T: "0 \<le> T" and L: "0 < L" and H: "0 < H" and m: "0 < m"
    and A: "L * T \<le> A" "A \<le> H * T" and D: "L * S \<le> D" "D \<le> H * S"
    and c1: "one_minus_u * (A / D) \<le> c1" "c1 \<le> one_plus_u * (A / D)"
    and c: "one_minus_u * (c1 / m) \<le> c" "c \<le> one_plus_u * (c1 / m)"
    and K: "one_plus_u * one_plus_u * H \<le> (1 + dl) * L" "(1 - dl) * H \<le> one_minus_u * one_minus_u * L"
  shows "(1 - dl) * (T / S / m) \<le> c" and "c \<le> (1 + dl) * (T / S / m)"
proof -
  have LS: "0 < L * S" and HS: "0 < H * S" using S L H by simp_all
  have Dpos: "0 < D" using D(1) LS by linarith
  have Apos: "0 \<le> A" using A(1) L T by (meson mult_nonneg_nonneg less_imp_le order_trans)
  have up: "A / D \<le> H * T / (L * S)"
    using A(2) D(1) LS H T by (intro frac_le) simp_all
  have "c1 / m \<le> one_plus_u * (H * T / (L * S)) / m"
  proof -
    have "one_plus_u * (A / D) \<le> one_plus_u * (H * T / (L * S))"
      using up lo_hi by (intro mult_left_mono) simp_all
    with c1(2) have "c1 \<le> one_plus_u * (H * T / (L * S))" by linarith
    then show ?thesis using m by (intro divide_right_mono) simp_all
  qed
  then have "one_plus_u * (c1 / m) \<le> one_plus_u * (one_plus_u * (H * T / (L * S)) / m)"
    using lo_hi by (intro mult_left_mono) simp_all
  with c(2) have "c \<le> one_plus_u * (one_plus_u * (H * T / (L * S)) / m)" by linarith
  also have "\<dots> = (one_plus_u * one_plus_u * H) * (T / (L * S * m))" by simp
  also have "\<dots> \<le> ((1 + dl) * L) * (T / (L * S * m))"
    using K(1) T LS m by (intro mult_right_mono) simp_all
  also have "\<dots> = (1 + dl) * (T / S / m)" using L by simp
  finally show "c \<le> (1 + dl) * (T / S / m)" .
  have low: "L * T / (H * S) \<le> A / D"
    using A(1) D(2) Dpos L T Apos by (intro frac_le) simp_all
  have "one_minus_u * (L * T / (H * S)) / m \<le> c1 / m"
  proof -
    have "one_minus_u * (L * T / (H * S)) \<le> one_minus_u * (A / D)"
      using low lo_hi by (intro mult_left_mono) simp_all
    with c1(1) have "one_minus_u * (L * T / (H * S)) \<le> c1" by linarith
    then show ?thesis using m by (intro divide_right_mono) simp_all
  qed
  then have "one_minus_u * (one_minus_u * (L * T / (H * S)) / m) \<le> one_minus_u * (c1 / m)"
    using lo_hi by (intro mult_left_mono) simp_all
  with c(1) have lowc: "one_minus_u * (one_minus_u * (L * T / (H * S)) / m) \<le> c" by linarith
  have "(1 - dl) * (T / S / m) = ((1 - dl) * H) * (T / (H * S * m))" using H by simp
  also have "\<dots> \<le> (one_minus_u * one_minus_u * L) * (T / (H * S * m))"
    using K(2) T HS m by (intro mult_right_mono) simp_all
  also have "\<dots> = one_minus_u * (one_minus_u * (L * T / (H * S)) / m)" by simp
  finally show "(1 - dl) * (T / S / m) \<le> c" using lowc by linarith
qed

lemma moment_le: "moment fd n \<le> real (n - 1) * energy fd n"
proof -
  have "(\<Sum>k = 0..<n. weight (fd ! k) * real k) \<le> (\<Sum>k = 0..<n. real (n - 1) * weight (fd ! k))"
  proof (rule sum_mono)
    fix k assume "k \<in> {0..<n}"
    then have "real k \<le> real (n - 1)" by simp
    then have "weight (fd ! k) * real k \<le> weight (fd ! k) * real (n - 1)"
      by (intro mult_left_mono weight_nonneg)
    then show "weight (fd ! k) * real k \<le> real (n - 1) * weight (fd ! k)"
      by (simp add: mult.commute)
  qed
  then show ?thesis by (simp add: moment_def energy_def sum_distrib_left)
qed

lemma rnd_fl_rel:
  assumes "x = 0 \<or> 1 / 2 ^ 1022 \<le> x" and "x < 2 ^ 1000"
  shows "fl x = Num (rnd x)" and "one_minus_u * x \<le> rnd x" and "rnd x \<le> one_plus_u * x"
proof -
  have x0: "0 \<le> x" using assms(1) by auto
  show "fl x = Num (rnd x)"
    using x0 assms(2) by (intro rnd_fl(1) [where b = "2 ^ 1000" and k = 1000 and d = "2 ^ 946"]) simp_all
  show "one_minus_u * x \<le> rnd x" and "rnd x \<le> one_plus_u * x" using rnd_lo_hi [OF assms(1)] by simp_all
qed

text \<open>
  C2, with the rounding of the code. For every buffer of \<open>frequencyBinCount\<close> bins
  that are \<open>-Infinity\<close> or finite within the single-precision range, the centroid is
  a finite number \<open>c\<close>: it is exactly 0 when the total energy is 0; it is the exact
  quotient \<open>(\<Sum> k * max 0 m\<^sub>k) / (\<Sum> max 0 m\<^sub>k) / (frequencyBinCount - 1)\<close> up to
  a relative error of \<open>2\<^sup>-\<^sup>4\<^sup>1\<close>; the exact quotient lies in \<open>[0, 1]\<close>, and \<open>c\<close>
  in \<open>[0, 1 + 2\<^sup>-\<^sup>4\<^sup>1]\<close>.
\<close>

theorem computeSpectralCentroid_rounded:
  assumes "length fd = frequencyBinCount" and "list_all float32_bin fd"
  shows "\<exists>c. computeSpectralCentroid (Inr fd) = Inr (Num c)
           \<and> (energy fd (length fd) = 0 \<longrightarrow> c = 0)
           \<and> (1 - 1 / 2 ^ 41) * centroid_exact fd \<le> c
           \<and> c \<le> (1 + 1 / 2 ^ 41) * centroid_exact fd
           \<and> 0 \<le> centroid_exact fd \<and> centroid_exact fd \<le> 1
           \<and> 0 \<le> c \<and> c \<le> 1 + 1 / 2 ^ 41"
proof -
  have n: "length fd = 1024" using assms(1) by (simp add: frequencyBinCount_def fftSize_def)
  define S where "S = energy fd 1024"
  define T where "T = moment fd 1024"
  have S0: "0 \<le> S" and T0: "0 \<le> T"
    by (simp_all add: S_def T_def energy_nonneg moment_nonneg)
  have TS: "T \<le> 1023 * S" using moment_le [of fd 1024] by (simp add: S_def T_def)
  from loop_inv [OF assms(2) _ _ acc_inv_start] n obtain A D where
    loop: "centroid_loop fd 0 (Num 0, Num 0) = (Num A, Num D)" and inv: "acc_inv fd 1024 A D"
    by auto
  from inv have A: "one_minus_u ^ 1025 * T \<le> A" "A \<le> one_plus_u ^ 1025 * T"
    and D: "one_minus_u ^ 1025 * S \<le> D" "D \<le> one_plus_u ^ 1025 * S"
    and At: "A = 0 \<or> 1 / 2 ^ 149 \<le> A" and Dt: "D = 0 \<or> 1 / 2 ^ 149 \<le> D"
    and Ac: "A \<le> 1024 * 2 ^ 140" and Dc: "D \<le> 1024 * 2 ^ 130"
    by (simp_all add: acc_inv_def S_def T_def)
  show ?thesis
  proof (cases "S = 0")
    case True
    with D have "D = 0" by simp
    with loop have "computeSpectralCentroid (Inr fd) = Inr (Num 0)"
      by (simp add: computeSpectralCentroid_def)
    moreover have "centroid_exact fd = 0" using True by (simp add: centroid_exact_def n S_def)
    ultimately show ?thesis by simp
  next
    case False
    with S0 have Spos: "0 < S" by simp
    have L: "0 < one_minus_u ^ 1025" and H: "0 < one_plus_u ^ 1025" using lo_hi by simp_all
    have "0 < one_minus_u ^ 1025 * S" using L Spos by simp
    with D(1) have Dpos: "0 < D" by linarith
    with Dt have Dlow: "1 / 2 ^ 149 \<le> D" by auto
    have A0: "0 \<le> A" using At by auto
    define q where "q = A / D"
    have q0: "0 \<le> q" using A0 Dpos by (simp add: q_def)
    have q_tiny: "q = 0 \<or> 1 / 2 ^ 300 \<le> q"
    proof (cases "A = 0")
      case True
      then show ?thesis by (simp add: q_def)
    next
      case False
      with At have "1 / 2 ^ 149 \<le> A" by simp
      then have "(1 / 2 ^ 149) / (1024 * 2 ^ 130) \<le> A / D"
        using Dc Dpos by (intro frac_le) simp_all
      moreover have "(1::real) / 2 ^ 300 \<le> (1 / 2 ^ 149) / (1024 * 2 ^ 130)" by simp
      ultimately have "1 / 2 ^ 300 \<le> A / D" by (rule order_trans [rotated])
      then show ?thesis unfolding q_def by (rule disjI2)
    qed
    have q_cap: "q \<le> 2 ^ 300"
    proof -
      have "A / D \<le> (1024 * 2 ^ 140) / (1 / 2 ^ 149)"
        using Ac Dlow A0 by (intro frac_le) simp_all
      then show ?thesis by (simp add: q_def)
    qed
    have small: "x = 0 \<or> 1 / 2 ^ 1022 \<le> x" if "x = 0 \<or> 1 / 2 ^ 320 \<le> x" for x :: real
    proof -
      have "(1::real) / 2 ^ 1022 \<le> 1 / 2 ^ 320"
        by (intro divide_left_mono power_increasing) simp_all
      with that show ?thesis by linarith
    qed
    define c1 where "c1 = rnd q"
    have q_tiny': "q = 0 \<or> 1 / 2 ^ 320 \<le> q" using q_tiny by auto
    have big: "(2::real) ^ 300 < 2 ^ 1000" by (intro power_strict_increasing) simp_all
    have f1: "fl q = Num c1" and c1: "one_minus_u * q \<le> c1" "c1 \<le> one_plus_u * q"
      unfolding c1_def using rnd_fl_rel [OF small [OF q_tiny']] q_cap big by simp_all
    have c1_cap: "c1 \<le> 2 ^ 301"
    proof -
      have "one_plus_u * q \<le> 2 * 2 ^ 300" using q_cap q0 by (intro mult_mono) (simp_all add: one_plus_u_def)
      with c1(2) show ?thesis by simp
    qed
    have c1_tiny: "c1 = 0 \<or> 1 / 2 ^ 301 \<le> c1"
    proof (cases "q = 0")
      case True
      then show ?thesis by (simp add: c1_def)
    next
      case False
      with q_tiny have "1 / 2 ^ 300 \<le> q" by simp
      then have "(1 / 2) * (1 / 2 ^ 300) \<le> one_minus_u * q" by (intro mult_mono) (simp_all add: one_minus_u_def)
      with c1(1) show ?thesis by simp
    qed
    define q2 where "q2 = c1 / 1023"
    have q2_tiny: "q2 = 0 \<or> 1 / 2 ^ 320 \<le> q2"
    proof (cases "c1 = 0")
      case True
      then show ?thesis by (simp add: q2_def)
    next
      case False
      with c1_tiny have "1 / 2 ^ 301 \<le> c1" by simp
      then have "(1 / 2 ^ 301) / 1023 \<le> c1 / 1023" by (intro divide_right_mono) simp_all
      moreover have "(1::real) / 2 ^ 320 \<le> (1 / 2 ^ 301) / 1023" by simp
      ultimately have "1 / 2 ^ 320 \<le> c1 / 1023" by (rule order_trans [rotated])
      then show ?thesis unfolding q2_def by (rule disjI2)
    qed
    have q2_cap: "q2 < 2 ^ 1000"
    proof -
      have "c1 \<le> c1 * 1023" using c1_tiny by auto
      then have "q2 \<le> c1" by (simp add: q2_def)
      moreover have "(2::real) ^ 301 < 2 ^ 1000" by (intro power_strict_increasing) simp_all
      ultimately show ?thesis using c1_cap by linarith
    qed
    define c where "c = rnd q2"
    have f2: "fl q2 = Num c" and c: "one_minus_u * q2 \<le> c" "c \<le> one_plus_u * q2"
      unfolding c_def using rnd_fl_rel [OF small [OF q2_tiny] q2_cap] by simp_all
    have val: "computeSpectralCentroid (Inr fd) = Inr (Num c)"
      using loop Dpos f1 f2 by (simp add: computeSpectralCentroid_def n q_def q2_def)
    have K1: "one_plus_u * one_plus_u * one_plus_u ^ 1025 \<le> (1 + 1 / 2 ^ 41) * one_minus_u ^ 1025"
      using factor_hi by (simp only: two_more)
    have K2: "(1 - 1 / 2 ^ 41) * one_plus_u ^ 1025 \<le> one_minus_u * one_minus_u * one_minus_u ^ 1025"
      using factor_lo by (simp only: two_more)
    have b: "(1 - 1 / 2 ^ 41) * (T / S / 1023) \<le> c" "c \<le> (1 + 1 / 2 ^ 41) * (T / S / 1023)"
      using quotient_bounds [OF Spos T0 L H _ A D c1 [unfolded q_def] c [unfolded q2_def] K1 K2]
      by simp_all
    have ex: "centroid_exact fd = T / S / 1023"
      using False by (simp add: centroid_exact_def n S_def T_def)
    have e0: "0 \<le> T / S / 1023" using T0 S0 by simp
    have e1: "T / S / 1023 \<le> 1" using TS Spos by (simp add: field_simps)
    have c0: "0 \<le> c"
    proof -
      have "0 \<le> (1 - 1 / 2 ^ 41) * (T / S / 1023)" using e0 by (intro mult_nonneg_nonneg) simp_all
      with b(1) show ?thesis by linarith
    qed
    have cu: "c \<le> 1 + 1 / 2 ^ 41"
    proof -
      have "(1 + 1 / 2 ^ 41) * (T / S / 1023) \<le> (1 + 1 / 2 ^ 41) * 1"
        using e1 by (intro mult_left_mono) simp_all
      with b(2) show ?thesis by simp
    qed
    from val b ex e0 e1 c0 cu False show ?thesis by (simp add: n S_def)
  qed
qed

lemma loop_skip:
  assumes "\<And>k. i \<le> k \<Longrightarrow> k < j \<Longrightarrow> Math_max (Num 0) (fd ! k) = Num 0"
    and "j \<le> length fd" and "i \<le> j"
  shows "centroid_loop fd i (Num 0, Num 0) = centroid_loop fd j (Num 0, Num 0)"
  using assms(1,3)
proof (induction "j - i" arbitrary: i)
  case 0
  then show ?case by simp
next
  case (Suc n)
  then have i: "i < j" by simp
  with assms(2) have il: "i < length fd" by simp
  have z: "Math_max (Num 0) (fd ! i) = Num 0" using Suc.prems(1) [of i] i by simp
  have "n = j - (i + 1)" using Suc.hyps(2) by simp
  from Suc.hyps(1) [OF this] Suc.prems(1) i
  have "centroid_loop fd (i + 1) (Num 0, Num 0) = centroid_loop fd j (Num 0, Num 0)" by simp
  with il z show ?case by (subst centroid_loop.simps) (simp add: Let_def)
qed

text \<open>
  C2 as stated asks for a result in \<open>[0, 1]\<close> for every buffer. With 1022 bins at
  \<open>-40\<close>, then \<open>1.5 * 2\<^sup>-\<^sup>5\<^sup>4\<close>, then 1, the sum of the weighted indices rounds up,
  the sum of the weights rounds down to 1, and the result is \<open>1 + 2\<^sup>-\<^sup>5\<^sup>2\<close>. With a
  bin at \<open>+Infinity\<close> the result is NaN.
\<close>

theorem centroid_exceeds_one:
  "computeSpectralCentroid (Inr (replicate 1022 (Num (- 40)) @ [Num (3 / 36028797018963968), Num 1]))
     = Inr (Num (1 + 1 / 2 ^ 52))
   \<and> \<not> (1 + 1 / 2 ^ 52 \<le> (1 :: real))
   \<and> computeSpectralCentroid (Inr (replicate 1023 (Num (- 40)) @ [PosInf])) = Inr NaN"
proof -
  let ?fd = "replicate 1022 (Num (- 40)) @ [Num (3 / 36028797018963968), Num 1]"
  let ?fe = "replicate 1023 (Num (- 40)) @ [PosInf]"
  have m1: "fl (1533 / 18014398509481984) = Num (1533 / 18014398509481984)"
    by (subst fl_eqI [of "-96"]) (simp_all add: round_even_def)
  have d1: "fl (3 / 36028797018963968) = Num (3 / 36028797018963968)"
    by (subst fl_eqI [of "-106"]) (simp_all add: round_even_def)
  have m2: "fl (1023) = Num (1023)"
    by (subst fl_eqI [of "-43"]) (simp_all add: round_even_def)
  have n2: "fl (18428729675200071165 / 18014398509481984) = Num (8998403161718785 / 8796093022208)"
    by (subst fl_eqI [of "-43"]) (simp_all add: round_even_def)
  have d2: "fl (36028797018963971 / 36028797018963968) = Num (1)"
    by (subst fl_eqI [of "-52"]) (simp_all add: round_even_def)
  have q1: "fl (8998403161718785 / 8796093022208) = Num (8998403161718785 / 8796093022208)"
    by (subst fl_eqI [of "-43"]) (simp_all add: round_even_def)
  have q2: "fl (8998403161718785 / 8998403161718784) = Num (4503599627370497 / 4503599627370496)"
    by (subst fl_eqI [of "-52"]) (simp_all add: round_even_def)
  have skip: "centroid_loop ?fd 0 (Num 0, Num 0) = centroid_loop ?fd 1022 (Num 0, Num 0)"
    by (rule loop_skip) (simp_all add: nth_append)
  have at1022: "centroid_loop ?fd 1022 (Num 0, Num 0)
      = centroid_loop ?fd 1023 (Num (1533 / 18014398509481984), Num (3 / 36028797018963968))"
    by (subst centroid_loop.simps) (simp add: Let_def nth_append m1 d1)
  have at1023: "centroid_loop ?fd 1023 (Num (1533 / 18014398509481984), Num (3 / 36028797018963968))
      = centroid_loop ?fd 1024 (Num (8998403161718785 / 8796093022208), Num 1)"
    by (subst centroid_loop.simps) (simp add: Let_def nth_append m2 n2 d2)
  have fin: "centroid_loop ?fd 1024 (Num (8998403161718785 / 8796093022208), Num 1) = (Num (8998403161718785 / 8796093022208), Num 1)"
    by (subst centroid_loop.simps) simp
  have loop: "centroid_loop ?fd 0 (Num 0, Num 0) = (Num (8998403161718785 / 8796093022208), Num 1)"
    by (simp only: skip at1022 at1023 fin)
  have one: "computeSpectralCentroid (Inr ?fd) = Inr (Num (1 + 1 / 2 ^ 52))"
    by (simp add: computeSpectralCentroid_def loop Let_def q1 q2)
  have skip': "centroid_loop ?fe 0 (Num 0, Num 0) = centroid_loop ?fe 1023 (Num 0, Num 0)"
    by (rule loop_skip) (simp_all add: nth_append)
  have at1023': "centroid_loop ?fe 1023 (Num 0, Num 0) = centroid_loop ?fe 1024 (PosInf, PosInf)"
    by (subst centroid_loop.simps) (simp add: Let_def nth_append)
  have fin': "centroid_loop ?fe 1024 (PosInf, PosInf) = (PosInf, PosInf)"
    by (subst centroid_loop.simps) simp
  have loop': "centroid_loop ?fe 0 (Num 0, Num 0) = (PosInf, PosInf)"
    by (simp only: skip' at1023' fin')
  have two: "computeSpectralCentroid (Inr ?fe) = Inr NaN"
    by (simp add: computeSpectralCentroid_def loop' Let_def)
  from one two show ?thesis by simp
qed

theorem computeSpectralCentroid_rounded_witness:
  "length (replicate 1022 (Num (- 40)) @ [Num (3 / 36028797018963968), Num 1]) = frequencyBinCount
   \<and> list_all float32_bin (replicate 1022 (Num (- 40)) @ [Num (3 / 36028797018963968), Num 1])
   \<and> (\<exists>c. computeSpectralCentroid (Inr (replicate 1022 (Num (- 40)) @ [Num (3 / 36028797018963968), Num 1]))
            = Inr (Num c) \<and> 0 \<le> c \<and> c \<le> 1 + 1 / 2 ^ 41)"
proof -
  let ?fd = "replicate 1022 (Num (- 40)) @ [Num (3 / 36028797018963968), Num 1]"
  have l: "length ?fd = frequencyBinCount" by (simp add: frequencyBinCount_def fftSize_def)
  have h: "list_all float32_bin ?fd" by (simp add: list_all_iff float32_bin_def)
  from computeSpectralCentroid_rounded [OF l h] l h show ?thesis by blast
qed

subsection \<open>Pause, end and failing centroid reads\<close>

lemma tick_fields:
  "scheduled (tick hv td fr s) = scheduled s @ [next_handle s]"
  "raf (tick hv td fr s) = next_handle s"
  "next_handle (tick hv td fr s) = next_handle s + 1"
  by (simp_all add: tick_def setMouth_def setViseme_def requestAnimationFrame_def Let_def
      split: sum.splits)

lemma onPlay_inv: "sampling_inv s \<Longrightarrow> sampling_inv (onPlay s)"
  by (auto simp: sampling_inv_def onPlay_def cancelAnimationFrame_def
      requestAnimationFrame_def Let_def)

lemma onPause_fields:
  "scheduled (onPause hv s) = filter (\<lambda>x. x \<noteq> raf s) (scheduled s)"
  "raf (onPause hv s) = raf s"
  "next_handle (onPause hv s) = next_handle s"
  "trace (onPause hv s) =
     trace s @ [CancelFrame (raf s), SetMouth 0] @ (if hv then [SetViseme (Num 0)] else [])"
  by (simp_all add: onPause_def cancelAnimationFrame_def setMouth_def setViseme_def Let_def)

lemma onPause_idle: "sampling_inv s \<Longrightarrow> scheduled (onPause hv s) = []"
  by (auto simp: sampling_inv_def onPause_fields)

lemma onPause_inv: "sampling_inv s \<Longrightarrow> sampling_inv (onPause hv s)"
  by (auto simp: sampling_inv_def onPause_fields)

lemma animationFrame_inv: "sampling_inv s \<Longrightarrow> sampling_inv (animationFrame hv td fr s)"
  by (auto simp: sampling_inv_def animationFrame_def tick_fields)

lemma dispatch_inv: "sampling_inv s \<Longrightarrow> sampling_inv (dispatch hv e s)"
proof (cases e)
  case Play
  assume "sampling_inv s"
  with Play show ?thesis by (simp add: onPlay_inv)
next
  case Pause
  assume "sampling_inv s"
  with Pause show ?thesis by (simp add: onPause_inv)
next
  case Ended
  assume "sampling_inv s"
  with Ended show ?thesis by (simp add: onPause_inv)
next
  case (Frame td fr)
  assume "sampling_inv s"
  with Frame show ?thesis by (simp add: animationFrame_inv)
next
  case Suspend
  assume "sampling_inv s"
  with Suspend show ?thesis by (simp add: sampling_inv_def)
next
  case OtherRequest
  assume "sampling_inv s"
  with OtherRequest show ?thesis by (auto simp: sampling_inv_def)
qed

lemma run_inv: "sampling_inv s \<Longrightarrow> sampling_inv (run hv es s)"
  unfolding run_def
  by (induction es arbitrary: s) (simp_all add: dispatch_inv)

lemma attach_inv: "sampling_inv (attach playing susp n)"
proof -
  have "sampling_inv \<lparr>raf = 0, scheduled = [], next_handle = n + 1, suspended = susp, trace = []\<rparr>"
    by (simp add: sampling_inv_def)
  then show ?thesis by (simp add: attach_def Let_def onPlay_inv)
qed

lemma idle_step:
  assumes "scheduled s = []" and "e \<noteq> Play"
  shows "scheduled (dispatch hv e s) = [] \<and> raf (dispatch hv e s) = raf s
         \<and> (\<exists>ys. trace (dispatch hv e s) = trace s @ ys
                \<and> set ys \<subseteq> {CancelFrame (raf s), SetMouth 0, SetViseme (Num 0)})"
proof (cases e)
  case Play
  with assms(2) show ?thesis by simp
next
  case Pause
  with assms(1) show ?thesis by (auto simp: onPause_fields)
next
  case Ended
  with assms(1) show ?thesis by (auto simp: onPause_fields)
next
  case (Frame td fr)
  with assms(1) show ?thesis by (simp add: animationFrame_def)
next
  case Suspend
  with assms(1) show ?thesis by simp
next
  case OtherRequest
  with assms(1) show ?thesis by simp
qed

lemma idle_run:
  assumes "scheduled s = []" and "Play \<notin> set es"
  shows "scheduled (run hv es s) = [] \<and> raf (run hv es s) = raf s
         \<and> (\<exists>ys. trace (run hv es s) = trace s @ ys
                \<and> set ys \<subseteq> {CancelFrame (raf s), SetMouth 0, SetViseme (Num 0)})"
  using assms
proof (induction es arbitrary: s)
  case Nil
  then show ?case by (simp add: run_def)
next
  case (Cons e es)
  then have e: "e \<noteq> Play" and es: "Play \<notin> set es" by auto
  from idle_step [OF Cons.prems(1) e, of hv] obtain ys where
    st: "scheduled (dispatch hv e s) = []" "raf (dispatch hv e s) = raf s"
        "trace (dispatch hv e s) = trace s @ ys"
        "set ys \<subseteq> {CancelFrame (raf s), SetMouth 0, SetViseme (Num 0)}"
    by blast
  from Cons.IH [OF st(1) es] obtain zs where
    rs: "scheduled (run hv es (dispatch hv e s)) = []"
        "raf (run hv es (dispatch hv e s)) = raf (dispatch hv e s)"
        "trace (run hv es (dispatch hv e s)) = trace (dispatch hv e s) @ zs"
        "set zs \<subseteq> {CancelFrame (raf (dispatch hv e s)), SetMouth 0, SetViseme (Num 0)}"
    by blast
  have r: "run hv (e # es) s = run hv es (dispatch hv e s)" by (simp add: run_def)
  have "trace (run hv (e # es) s) = trace s @ (ys @ zs)" using rs(3) st(3) by (simp add: r)
  moreover have "set (ys @ zs) \<subseteq> {CancelFrame (raf s), SetMouth 0, SetViseme (Num 0)}"
    using st(4) rs(4) st(2) by auto
  ultimately show ?case using rs(1,2) st(2) unfolding r by metis
qed

text \<open>
  C3, as the handler does it. In every state a subscription can reach, a
  \<^verbatim>\<open>pause\<close> or \<^verbatim>\<open>ended\<close> event runs \<open>onPause\<close>, which first cancels the frame
  callback held in \<^verbatim>\<open>raf\<close>, then calls \<^verbatim>\<open>setMouth(0)\<close> and then, when it was supplied,
  \<^verbatim>\<open>setViseme(0)\<close>. Afterwards nothing is scheduled, and it stays so until the next
  \<^verbatim>\<open>play\<close>: over any further events without a \<^verbatim>\<open>play\<close>, animation frames included,
  nothing is scheduled and the only effects are further cancellations and zero calls.
\<close>

theorem onPause_cancels_then_zeroes:
  assumes "Play \<notin> set later"
  shows "scheduled (onPause hv (run hv es (attach playing susp n))) = []
   \<and> trace (onPause hv (run hv es (attach playing susp n))) =
       trace (run hv es (attach playing susp n))
         @ [CancelFrame (raf (run hv es (attach playing susp n))), SetMouth 0]
         @ (if hv then [SetViseme (Num 0)] else [])
   \<and> dispatch hv Pause (run hv es (attach playing susp n)) =
       onPause hv (run hv es (attach playing susp n))
   \<and> dispatch hv Ended (run hv es (attach playing susp n)) =
       onPause hv (run hv es (attach playing susp n))
   \<and> trace (animationFrame hv td fr (onPause hv (run hv es (attach playing susp n)))) =
       trace (onPause hv (run hv es (attach playing susp n)))
   \<and> scheduled (run hv later (onPause hv (run hv es (attach playing susp n)))) = []
   \<and> (\<exists>ys. trace (run hv later (onPause hv (run hv es (attach playing susp n)))) =
              trace (onPause hv (run hv es (attach playing susp n))) @ ys
            \<and> set ys \<subseteq> {CancelFrame (raf (run hv es (attach playing susp n))),
                            SetMouth 0, SetViseme (Num 0)})"
proof -
  let ?s = "run hv es (attach playing susp n)"
  have inv: "sampling_inv ?s" by (rule run_inv) (rule attach_inv)
  have idle: "scheduled (onPause hv ?s) = []" by (rule onPause_idle [OF inv])
  have fr: "trace (animationFrame hv td fr (onPause hv ?s)) = trace (onPause hv ?s)"
    by (simp add: animationFrame_def idle)
  from idle_run [OF idle assms, of hv] obtain ys where
    "scheduled (run hv later (onPause hv ?s)) = []"
    "trace (run hv later (onPause hv ?s)) = trace (onPause hv ?s) @ ys"
    "set ys \<subseteq> {CancelFrame (raf (onPause hv ?s)), SetMouth 0, SetViseme (Num 0)}"
    by blast
  with idle fr show ?thesis by (auto simp: onPause_fields)
qed

theorem onPause_cancels_then_zeroes_witness:
  "Play \<notin> set [Frame [] (Inl Thrown), Pause, Suspend, OtherRequest, Frame [] (Inr []), Ended]
   \<and> scheduled (run True [Frame [] (Inl Thrown), Pause, Suspend, OtherRequest, Frame [] (Inr []), Ended]
        (onPause True (run True [Play] (attach False False 0)))) = []
   \<and> trace (run True [Frame [] (Inl Thrown), Pause, Suspend, OtherRequest, Frame [] (Inr []), Ended]
        (onPause True (run True [Play] (attach False False 0)))) =
       [CancelFrame 0, RequestFrame 1, CancelFrame 1, SetMouth 0, SetViseme (Num 0),
        CancelFrame 1, SetMouth 0, SetViseme (Num 0), CancelFrame 1, SetMouth 0, SetViseme (Num 0)]"
proof -
  have h: "Play \<notin> set [Frame [] (Inl Thrown), Pause, Suspend, OtherRequest, Frame [] (Inr []), Ended]"
    by simp
  have t: "trace (run True [Frame [] (Inl Thrown), Pause, Suspend, OtherRequest, Frame [] (Inr []), Ended]
        (onPause True (run True [Play] (attach False False 0)))) =
       [CancelFrame 0, RequestFrame 1, CancelFrame 1, SetMouth 0, SetViseme (Num 0),
        CancelFrame 1, SetMouth 0, SetViseme (Num 0), CancelFrame 1, SetMouth 0, SetViseme (Num 0)]"
    by (simp add: run_def attach_def onPlay_def onPause_def cancelAnimationFrame_def
        requestAnimationFrame_def animationFrame_def setMouth_def setViseme_def Let_def)
  from onPause_cancels_then_zeroes [OF h, of True "[Play]" False False 0] h t
  show ?thesis by simp
qed

text \<open>
  C3, as stated, asks for both zero calls to come before the sampling loop stops. After
  \<^verbatim>\<open>play\<close> on a fresh subscription the callback with handle 1 is scheduled; on
  \<^verbatim>\<open>pause\<close> its cancellation is the first effect of the handler, and neither zero call
  precedes it.
\<close>

theorem zeroes_after_cancel:
  "scheduled (run True [Play] (attach False False 0)) = [1]
   \<and> trace (onPause True (run True [Play] (attach False False 0))) =
       [CancelFrame 0, RequestFrame 1, CancelFrame 1, SetMouth 0, SetViseme (Num 0)]
   \<and> \<not> precedes (SetMouth 0) (CancelFrame 1)
         (trace (onPause True (run True [Play] (attach False False 0))))
   \<and> \<not> precedes (SetViseme (Num 0)) (CancelFrame 1)
         (trace (onPause True (run True [Play] (attach False False 0))))"
  by (simp add: run_def attach_def onPlay_def onPause_def cancelAnimationFrame_def
      requestAnimationFrame_def setMouth_def setViseme_def precedes_def Let_def)

lemma computeSpectralCentroid_returns: "\<exists>c. computeSpectralCentroid (Inr fd) = Inr c"
  by (simp add: computeSpectralCentroid_def Let_def split: prod.splits)

text \<open>
  C8. When the centroid computation throws during a tick, the tick has already called
  \<^verbatim>\<open>setMouth\<close> with the loudness, skips \<^verbatim>\<open>setViseme\<close> only, and requests the next frame
  as usual: its handle is scheduled and stored in \<^verbatim>\<open>raf\<close>. A tick whose computation
  returns calls \<^verbatim>\<open>setViseme\<close> between the two.
\<close>

theorem tick_viseme_failure:
  "trace (tick hv td (Inl e) s) = trace s @ [SetMouth (tick_amp td), RequestFrame (next_handle s)]
   \<and> scheduled (tick hv td (Inl e) s) = scheduled s @ [next_handle s]
   \<and> raf (tick hv td (Inl e) s) = next_handle s
   \<and> (\<exists>c. computeSpectralCentroid (Inr fd) = Inr c
          \<and> trace (tick True td (Inr fd) s) =
              trace s @ [SetMouth (tick_amp td), SetViseme c, RequestFrame (next_handle s)])"
proof -
  have "computeSpectralCentroid (Inl e) = Inl e"
    by (simp add: computeSpectralCentroid_def)
  then have fail: "trace (tick hv td (Inl e) s) =
      trace s @ [SetMouth (tick_amp td), RequestFrame (next_handle s)]"
    by (simp add: tick_def setMouth_def requestAnimationFrame_def Let_def)
  obtain c where c: "computeSpectralCentroid (Inr fd) = Inr c"
    using computeSpectralCentroid_returns by blast
  then have "trace (tick True td (Inr fd) s) =
      trace s @ [SetMouth (tick_amp td), SetViseme c, RequestFrame (next_handle s)]"
    by (simp add: tick_def setMouth_def setViseme_def requestAnimationFrame_def Let_def)
  with c fail show ?thesis by (simp add: tick_fields)
qed

subsection \<open>One analysis graph per media element\<close>

lemma graph_attach_hit:
  "graph r a = Some e \<Longrightarrow> graph_attach (Some a) r = (r, Some e)"
  by (simp add: graph_attach_def)

lemma graph_attach_caches:
  "\<exists>e. graph (fst (graph_attach (Some a) r)) a = Some e \<and> snd (graph_attach (Some a) r) = Some e"
  by (cases "graph r a") (simp_all add: graph_attach_def Let_def)

lemma graph_attach_inv:
  assumes "cache_inv r"
  shows "cache_inv (fst (graph_attach x r))"
proof (cases x)
  case None
  with assms show ?thesis by (simp add: graph_attach_def)
next
  case (Some a)
  show ?thesis
  proof (cases "graph r a")
    case None
    with assms Some show ?thesis
      by (auto simp: cache_inv_def graph_attach_def Let_def split: option.splits)
  next
    case (Some e)
    with assms \<open>x = Some a\<close> show ?thesis by (simp add: graph_attach_def)
  qed
qed

lemma graph_attach_dom:
  "dom (graph (fst (graph_attach x r))) = dom (graph r) \<union> {a. x = Some a}"
  by (auto simp: graph_attach_def Let_def split: option.splits)

lemma attach_all_inv: "cache_inv r \<Longrightarrow> cache_inv (attach_all refs r)"
  unfolding attach_all_def
  by (induction refs arbitrary: r) (simp_all add: graph_attach_inv)

lemma attach_all_dom:
  "dom (graph (attach_all refs r)) = dom (graph r) \<union> {a. Some a \<in> set refs}"
  unfolding attach_all_def
proof (induction refs arbitrary: r)
  case Nil
  show ?case by simp
next
  case (Cons x xs)
  show ?case by (simp add: Cons.IH graph_attach_dom) blast
qed

lemma taps_length:
  assumes "cache_inv r"
  shows "length (taps a r) = (if a \<in> dom (graph r) then 1 else 0)"
proof -
  from assms have "filter (\<lambda>p. fst p = a) (built r) =
      (case graph r a of None \<Rightarrow> [] | Some e \<Rightarrow> [(a, e)])"
    by (simp add: cache_inv_def)
  then show ?thesis by (auto simp: taps_def split: option.splits)
qed

text \<open>
  C4. After any sequence of attach calls, starting with the empty cache, a media element
  has had exactly one analysis graph built if it was attached at all and none otherwise,
  so never more than one. A further attach of the element finds the cached entry, and
  one more after that returns the same entry and leaves cache and construction log as
  they are.
\<close>

theorem one_session_per_resource:
  "length (taps a (attach_all refs graph_init)) = (if Some a \<in> set refs then 1 else 0)
   \<and> length (taps a (attach_all refs graph_init)) \<le> 1
   \<and> snd (graph_attach (Some a) (attach_all refs graph_init)) \<noteq> None
   \<and> graph_attach (Some a) (fst (graph_attach (Some a) (attach_all refs graph_init))) =
       graph_attach (Some a) (attach_all refs graph_init)
   \<and> length (taps a (attach_all (refs @ [Some a, Some a]) graph_init)) = 1"
proof -
  let ?r = "attach_all refs graph_init"
  have init: "cache_inv graph_init" by (simp add: cache_inv_def graph_init_def)
  have inv: "cache_inv (attach_all xs graph_init)" for xs
    by (rule attach_all_inv [OF init])
  have d: "dom (graph (attach_all xs graph_init)) = {a. Some a \<in> set xs}" for xs
    by (simp add: attach_all_dom graph_init_def)
  have n: "length (taps a (attach_all xs graph_init)) = (if Some a \<in> set xs then 1 else 0)" for xs
    using taps_length [OF inv [of xs], of a] by (simp add: d)
  obtain e where e: "graph (fst (graph_attach (Some a) ?r)) a = Some e"
      "snd (graph_attach (Some a) ?r) = Some e"
    using graph_attach_caches by blast
  have again: "graph_attach (Some a) (fst (graph_attach (Some a) ?r)) =
      (fst (graph_attach (Some a) ?r), Some e)"
    by (rule graph_attach_hit [OF e(1)])
  then have same: "graph_attach (Some a) (fst (graph_attach (Some a) ?r)) = graph_attach (Some a) ?r"
    using e(2) by (simp add: prod_eq_iff)
  from n [of refs] n [of "refs @ [Some a, Some a]"] e(2) same show ?thesis by simp
qed

subsection \<open>Viseme selection\<close>

lemma lerp_from_start: "lerp x y t = x + t * (y - x)"
  by (simp add: lerp_def algebra_simps)

lemma lerp_unit:
  assumes "0 \<le> t" "t \<le> 1" "0 \<le> x" "x \<le> 1" "0 \<le> y" "y \<le> 1"
  shows "0 \<le> lerp x y t \<and> lerp x y t \<le> 1"
proof -
  have "0 \<le> (1 - t) * x" "0 \<le> t * y" using assms by simp_all
  then have lo: "0 \<le> lerp x y t" by (simp add: lerp_def)
  have "(1 - t) * x \<le> (1 - t) * 1" using assms by (intro mult_left_mono) simp_all
  moreover have "t * y \<le> t * 1" using assms by (intro mult_left_mono) simp_all
  ultimately have "lerp x y t \<le> 1" by (simp add: lerp_def)
  with lo show ?thesis by simp
qed

lemma useFrame_v:
  "mouthSmooth (useFrame ixs m c d s) = lerp (mouthSmooth s) (clamp m 0 1) 0.35"
  by (simp add: useFrame_def Let_def)

lemma pos_in_range:
  assumes "0 < length ixs"
  shows "pos x ixs < length ixs"
proof -
  let ?n = "real (length ixs)"
  have n: "0 < ?n" using assms by simp
  have "clamp x 0 0.9999 \<le> 0.9999" by (simp add: clamp_def)
  then have "clamp x 0 0.9999 * ?n \<le> 0.9999 * ?n"
    using n by (intro mult_right_mono) simp_all
  also have "\<dots> < ?n" using n by simp
  finally have lt: "clamp x 0 0.9999 * ?n < ?n" .
  have ge: "0 \<le> clamp x 0 0.9999 * ?n" by (simp add: clamp_def)
  from lt have "\<lfloor>clamp x 0 0.9999 * ?n\<rfloor> < int (length ixs)"
    by (simp add: floor_less_iff)
  moreover from ge have "0 \<le> \<lfloor>clamp x 0 0.9999 * ?n\<rfloor>" by simp
  ultimately show ?thesis unfolding pos_def by linarith
qed

text \<open>
  C5. While talking with a centroid above 0 and a non-empty palette, the selection
  should be the palette entry at \<open>pos\<close>. With the palette \<open>[3, 4, 0, 1]\<close> (two
  meshes, the second with its talking shapes at morph-target indices 0 and 1) and
  centroid 0.6 the position is 2 and the entry there is 0. The code selects 3, the
  entry at position 0: \<^verbatim>\<open>allShapeIndices[pos] || allShapeIndices[0]\<close> takes index 0 for
  a missing value.
\<close>

theorem centroid_selection_zero_entry:
  "pos 0.6 [3, 4, 0, 1] = 2
   \<and> [3, 4, 0, 1 :: nat] ! 2 = 0
   \<and> mouthSmooth (useFrame [3, 4, 0, 1] 1 0.6 (1 / 60) selector_init) > 0.02
   \<and> currentViseme (useFrame [3, 4, 0, 1] 1 0.6 (1 / 60) selector_init) = Some 3"
  by (simp add: useFrame_def selector_init_def pos_def clamp_def lerp_def js_or_def js_index_def Let_def)

text \<open>
  What the centroid branch selects in general: the entry at \<open>pos\<close>, except that an
  entry 0 is replaced by the first entry. The cadence timer is not touched.
\<close>

lemma centroid_selection:
  assumes "mouthSmooth (useFrame ixs m c d s) > 0.02" and "c > 0" and "0 < length ixs"
  shows "currentViseme (useFrame ixs m c d s) =
           (if ixs ! pos c ixs = 0 then Some (ixs ! 0) else Some (ixs ! pos c ixs))
         \<and> visemeTimer (useFrame ixs m c d s) = visemeTimer s"
proof -
  have v: "lerp (mouthSmooth s) (clamp m 0 1) 0.35 > 0.02"
    using assms(1) by (simp only: useFrame_v)
  from v assms(2,3) pos_in_range [OF assms(3), of c] show ?thesis
    by (simp add: useFrame_def Let_def js_or_def js_index_def)
qed

lemma c24: "rnd 0.24 = 1080863910568919 / 4503599627370496"
  by (subst rnd_eqI [of "-55"]) (simp_all add: round_even_def)

lemma c06: "rnd 0.06 = 1080863910568919 / 18014398509481984"
  by (subst rnd_eqI [of "-57"]) (simp_all add: round_even_def)

lemma c15: "rnd 0.15 = 5404319552844595 / 36028797018963968"
  by (subst rnd_eqI [of "-55"]) (simp_all add: round_even_def)

lemma rnd_unit: "rnd 1 = 1"
  by (subst rnd_eqI [of "-52"]) (simp_all add: round_even_def)

lemma rnd_c24: "rnd (1080863910568919 / 4503599627370496) = 1080863910568919 / 4503599627370496"
  by (subst rnd_eqI [of "-55"]) (simp_all add: round_even_def)

lemma rnd_c06: "rnd (1080863910568919 / 18014398509481984) = 1080863910568919 / 18014398509481984"
  by (subst rnd_eqI [of "-57"]) (simp_all add: round_even_def)

lemma lerp_double_error:
  assumes "0 \<le> t" and "t \<le> 1"
  shows "\<bar>lerp_double (rnd 0.24) (rnd 0.06) t - (0.24 + (0.06 - 0.24) * t)\<bar> \<le> 1 / 2 ^ 53"
proof -
  define a where "a = rnd (1 - t)"
  define p where "p = rnd (a * (1080863910568919 / 4503599627370496))"
  define q where "q = rnd (t * (1080863910568919 / 18014398509481984))"
  define r where "r = rnd (p + q)"
  have r: "lerp_double (rnd 0.24) (rnd 0.06) t = r"
    unfolding lerp_double_def c24 c06 r_def p_def q_def a_def by (rule refl)
  have ea: "1 - t - 1 / 2 ^ 53 \<le> a \<and> a \<le> 1 - t + 1 / 2 ^ 53"
    unfolding a_def using assms by (intro rnd_near [where b = 2 and k = 1]) simp_all
  have ep: "a * (1080863910568919 / 4503599627370496) - 1 / 2 ^ 56 \<le> p
            \<and> p \<le> a * (1080863910568919 / 4503599627370496) + 1 / 2 ^ 56"
    unfolding p_def
  proof (rule rnd_near [where b = "1 / 4" and k = "- 2"])
    show "- (1 / 4) < a * (1080863910568919 / 4503599627370496)" using ea assms by simp
    show "a * (1080863910568919 / 4503599627370496) < 1 / 4" using ea assms by simp
  qed simp_all
  have eq: "t * (1080863910568919 / 18014398509481984) - 1 / 2 ^ 58 \<le> q
            \<and> q \<le> t * (1080863910568919 / 18014398509481984) + 1 / 2 ^ 58"
    unfolding q_def
  proof (rule rnd_near [where b = "1 / 16" and k = "- 4"])
    show "- (1 / 16) < t * (1080863910568919 / 18014398509481984)" using assms by simp
    show "t * (1080863910568919 / 18014398509481984) < 1 / 16" using assms by simp
  qed simp_all
  have er: "p + q - 1 / 2 ^ 56 \<le> r \<and> r \<le> p + q + 1 / 2 ^ 56"
    unfolding r_def
  proof (rule rnd_near [where b = "1 / 4" and k = "- 2"])
    show "- (1 / 4) < p + q" using ea ep eq assms by simp
    show "p + q < 1 / 4" using ea ep eq assms by simp
  qed simp_all
  have "0.24 + (0.06 - 0.24) * t - 1 / 2 ^ 53 \<le> r" using ea ep eq er assms by simp
  moreover have "r \<le> 0.24 + (0.06 - 0.24) * t + 1 / 2 ^ 53" using ea ep eq er assms by simp
  ultimately show ?thesis unfolding r abs_diff_le_iff by blast
qed

lemma interval_error: "\<bar>interval v - (0.24 + (0.06 - 0.24) * clamp v 0 1)\<bar> \<le> 1 / 2 ^ 53"
  unfolding interval_def by (rule lerp_double_error) (simp_all add: clamp_def)

lemma interval_low:
  assumes "v \<le> 0"
  shows "interval v = rnd 0.24"
proof -
  have t: "clamp v 0 1 = 0" using assms by (simp add: clamp_def)
  show ?thesis
    unfolding interval_def lerp_double_def t c24 c06
    by (simp add: rnd_unit rnd_c24)
qed

lemma interval_high:
  assumes "1 \<le> v"
  shows "interval v = rnd 0.06"
proof -
  have t: "clamp v 0 1 = 1" using assms by (simp add: clamp_def)
  show ?thesis
    unfolding interval_def lerp_double_def t c24 c06
    by (simp add: rnd_c06)
qed

lemma interval_half: "interval 0.5 = rnd 0.15"
proof -
  have ah: "rnd (1 - 1 / 2) = 1 / 2"
    by (subst rnd_eqI [of "-53"]) (simp_all add: round_even_def)
  have ph: "rnd (1 / 2 * (1080863910568919 / 4503599627370496)) = 1080863910568919 / 9007199254740992"
    by (subst rnd_eqI [of "-56"]) (simp_all add: round_even_def)
  have qh: "rnd (1 / 2 * (1080863910568919 / 18014398509481984)) = 1080863910568919 / 36028797018963968"
    by (subst rnd_eqI [of "-58"]) (simp_all add: round_even_def)
  have rh: "rnd (1080863910568919 / 9007199254740992 + 1080863910568919 / 36028797018963968) = 5404319552844595 / 36028797018963968"
    by (subst rnd_eqI [of "-55"]) (simp_all add: round_even_def)
  have th: "clamp (1 / 2) 0 1 = 1 / 2" by (simp add: clamp_def)
  have ih: "interval (1 / 2) = 5404319552844595 / 36028797018963968"
    unfolding interval_def lerp_double_def th c24 c06 ah ph qh rh by (rule refl)
  have "interval 0.5 = interval (1 / 2)" by simp
  then show ?thesis by (simp only: ih c15)
qed

text \<open>
  C6, with the rounding of the code. The interval is the double-precision value of
  \<^verbatim>\<open>(1 - t) * 0.24 + t * 0.06\<close> at \<open>t = clamp v 0 1\<close>: the double 0.24 for every
  \<open>v \<le> 0\<close>, the double 0.06 for every \<open>v \<ge> 1\<close>, the double 0.15 at \<open>v = 0.5\<close>, and
  within \<open>2\<^sup>-\<^sup>5\<^sup>3\<close> of \<open>0.24 + (0.06 - 0.24) * clamp v 0 1\<close> everywhere. For
  amplitudes \<open>v1 < v2\<close>, both above 0.02, the interval for \<open>v2\<close> is at most the
  interval for \<open>v1\<close> plus \<open>2\<^sup>-\<^sup>5\<^sup>2\<close>.
\<close>

theorem interval_antitone_rounded:
  assumes "v1 < v2" and "0.02 < v1" and "0.02 < v2"
  shows "interval v2 \<le> interval v1 + 1 / 2 ^ 52
         \<and> \<bar>interval v1 - (0.24 + (0.06 - 0.24) * clamp v1 0 1)\<bar> \<le> 1 / 2 ^ 53
         \<and> \<bar>interval v2 - (0.24 + (0.06 - 0.24) * clamp v2 0 1)\<bar> \<le> 1 / 2 ^ 53
         \<and> (w \<le> 0 \<longrightarrow> interval w = rnd 0.24)
         \<and> (1 \<le> w \<longrightarrow> interval w = rnd 0.06)
         \<and> interval 0.5 = rnd 0.15
         \<and> rnd 0.24 = 1080863910568919 / 4503599627370496
         \<and> rnd 0.06 = 1080863910568919 / 18014398509481984
         \<and> rnd 0.15 = 5404319552844595 / 36028797018963968"
proof -
  have e1: "\<bar>interval v1 - (0.24 + (0.06 - 0.24) * clamp v1 0 1)\<bar> \<le> 1 / 2 ^ 53"
    by (rule interval_error)
  have e2: "\<bar>interval v2 - (0.24 + (0.06 - 0.24) * clamp v2 0 1)\<bar> \<le> 1 / 2 ^ 53"
    by (rule interval_error)
  have "clamp v1 0 1 \<le> clamp v2 0 1" using assms(1) by (simp add: clamp_def)
  then have "0.24 + (0.06 - 0.24) * clamp v2 0 1 \<le> 0.24 + (0.06 - 0.24) * clamp v1 0 1"
    by simp
  moreover from e1 have "0.24 + (0.06 - 0.24) * clamp v1 0 1 - 1 / 2 ^ 53 \<le> interval v1"
    by (simp only: abs_diff_le_iff)
  moreover from e2 have "interval v2 \<le> 0.24 + (0.06 - 0.24) * clamp v2 0 1 + 1 / 2 ^ 53"
    by (simp only: abs_diff_le_iff)
  ultimately have a: "interval v2 \<le> interval v1 + 1 / 2 ^ 52" by simp
  have lowv: "w \<le> 0 \<longrightarrow> interval w = rnd 0.24" by (simp add: interval_low)
  have highv: "1 \<le> w \<longrightarrow> interval w = rnd 0.06" by (simp add: interval_high)
  from a e1 e2 lowv highv interval_half c24 c06 c15 show ?thesis by (simp only: simp_thms)
qed

theorem interval_antitone_rounded_witness:
  "(0.25 :: real) < 0.75 \<and> (0.02 :: real) < 0.25 \<and> (0.02 :: real) < 0.75
   \<and> interval 0.75 \<le> interval 0.25 + 1 / 2 ^ 52
   \<and> interval 2 = rnd 0.06 \<and> interval (- 1) = rnd 0.24"
proof -
  have h: "(0.25 :: real) < 0.75" "(0.02 :: real) < 0.25" "(0.02 :: real) < 0.75" by simp_all
  from interval_antitone_rounded [OF h, of 2] have "interval 2 = rnd 0.06" by simp
  moreover from interval_antitone_rounded [OF h, of "- 1"] have "interval (- 1) = rnd 0.24" by simp
  moreover from interval_antitone_rounded [OF h] have "interval 0.75 \<le> interval 0.25 + 1 / 2 ^ 52"
    by blast
  ultimately show ?thesis using h by simp
qed

text \<open>
  C6 as stated asks for an interval that never grows with the amplitude. The two
  amplitudes below are doubles just under 0.125, both above 0.02; the interval at the
  larger one is one unit in the last place above the interval at the smaller one.
\<close>

theorem interval_not_antitone:
  "(4503599627370491 / 36028797018963968 :: real) < 9007199254740985 / 72057594037927936
   \<and> (0.02 :: real) < 4503599627370491 / 36028797018963968
   \<and> interval (4503599627370491 / 36028797018963968) = 7836263351624663 / 36028797018963968
   \<and> interval (9007199254740985 / 72057594037927936) = 979532918953083 / 4503599627370496
   \<and> \<not> interval (9007199254740985 / 72057594037927936) \<le> interval (4503599627370491 / 36028797018963968)"
proof -
  have a1: "rnd (1 - 4503599627370491 / 36028797018963968) = 7881299347898369 / 9007199254740992"
    by (subst rnd_eqI [of "-53"]) (simp_all add: round_even_def)
  have p1: "rnd (7881299347898369 / 9007199254740992 * (1080863910568919 / 4503599627370496)) = 3783023686991217 / 18014398509481984"
    by (subst rnd_eqI [of "-55"]) (simp_all add: round_even_def)
  have q1: "rnd (4503599627370491 / 36028797018963968 * (1080863910568919 / 18014398509481984)) = 4323455642275671 / 576460752303423488"
    by (subst rnd_eqI [of "-60"]) (simp_all add: round_even_def)
  have r1: "rnd (3783023686991217 / 18014398509481984 + 4323455642275671 / 576460752303423488) = 7836263351624663 / 36028797018963968"
    by (subst rnd_eqI [of "-55"]) (simp_all add: round_even_def)
  have t1: "clamp (4503599627370491 / 36028797018963968) 0 1 = 4503599627370491 / 36028797018963968" by (simp add: clamp_def)
  have i1: "interval (4503599627370491 / 36028797018963968) = 7836263351624663 / 36028797018963968"
    unfolding interval_def lerp_double_def t1 c24 c06 a1 p1 q1 r1 by (rule refl)
  have a2: "rnd (1 - 9007199254740985 / 72057594037927936) = 7881299347898369 / 9007199254740992"
    by (subst rnd_eqI [of "-53"]) (simp_all add: round_even_def)
  have p2: "rnd (7881299347898369 / 9007199254740992 * (1080863910568919 / 4503599627370496)) = 3783023686991217 / 18014398509481984"
    by (subst rnd_eqI [of "-55"]) (simp_all add: round_even_def)
  have q2: "rnd (9007199254740985 / 72057594037927936 * (1080863910568919 / 18014398509481984)) = 8646911284551345 / 1152921504606846976"
    by (subst rnd_eqI [of "-60"]) (simp_all add: round_even_def)
  have r2: "rnd (3783023686991217 / 18014398509481984 + 8646911284551345 / 1152921504606846976) = 979532918953083 / 4503599627370496"
    by (subst rnd_eqI [of "-55"]) (simp_all add: round_even_def)
  have t2: "clamp (9007199254740985 / 72057594037927936) 0 1 = 9007199254740985 / 72057594037927936" by (simp add: clamp_def)
  have i2: "interval (9007199254740985 / 72057594037927936) = 979532918953083 / 4503599627370496"
    unfolding interval_def lerp_double_def t2 c24 c06 a2 p2 q2 r2 by (rule refl)
  show ?thesis unfolding i1 i2 by simp
qed

text \<open>
  C7. On a frame whose smoothed amplitude is at most 0.02, the frame itself leaves the
  cadence timer at 0 and the current viseme at \<^verbatim>\<open>null\<close>.
\<close>

theorem not_talking_clears:
  assumes "mouthSmooth (useFrame ixs m c d s) \<le> 0.02"
  shows "visemeTimer (useFrame ixs m c d s) = 0 \<and> currentViseme (useFrame ixs m c d s) = None"
proof -
  have v: "\<not> lerp (mouthSmooth s) (clamp m 0 1) 0.35 > 0.02"
    using assms by (simp only: useFrame_v)
  then show ?thesis by (simp add: useFrame_def Let_def)
qed

theorem not_talking_clears_witness:
  "mouthSmooth (useFrame [1, 2] 0 0.5 (1 / 60) \<lparr>mouthSmooth = 0.03, visemeTimer = 0.1, currentViseme = Some 2\<rparr>) \<le> 0.02
   \<and> visemeTimer (useFrame [1, 2] 0 0.5 (1 / 60) \<lparr>mouthSmooth = 0.03, visemeTimer = 0.1, currentViseme = Some 2\<rparr>) = 0
   \<and> currentViseme (useFrame [1, 2] 0 0.5 (1 / 60) \<lparr>mouthSmooth = 0.03, visemeTimer = 0.1, currentViseme = Some 2\<rparr>) = None"
proof -
  let ?s = "\<lparr>mouthSmooth = 0.03, visemeTimer = 0.1, currentViseme = Some 2\<rparr>"
  have h: "mouthSmooth (useFrame [1, 2] 0 0.5 (1 / 60) ?s) \<le> 0.02"
    by (simp add: useFrame_def Let_def lerp_def clamp_def)
  from not_talking_clears [OF h] h show ?thesis by simp
qed

text \<open>
  C9. On a frame that is talking, with no centroid above 0 and with the advanced cadence
  timer still below the interval, the current viseme stays what it was; the timer keeps
  the elapsed time.
\<close>

theorem cadence_pending_keeps_viseme:
  assumes "mouthSmooth (useFrame ixs m c d s) > 0.02"
    and "\<not> c > 0"
    and "visemeTimer s + d < interval (mouthSmooth (useFrame ixs m c d s))"
  shows "currentViseme (useFrame ixs m c d s) = currentViseme s
         \<and> visemeTimer (useFrame ixs m c d s) = visemeTimer s + d"
proof -
  have v: "lerp (mouthSmooth s) (clamp m 0 1) 0.35 > 0.02"
    using assms(1) by (simp only: useFrame_v)
  have t: "\<not> interval (lerp (mouthSmooth s) (clamp m 0 1) 0.35) \<le> visemeTimer s + d"
    using assms(3) by (simp only: useFrame_v)
  from v t assms(2) show ?thesis by (simp add: useFrame_def Let_def)
qed

theorem cadence_pending_keeps_viseme_witness:
  "mouthSmooth (useFrame [1, 2] 1 0 (1 / 60) \<lparr>mouthSmooth = 0.5, visemeTimer = 0, currentViseme = Some 2\<rparr>) > 0.02
   \<and> currentViseme (useFrame [1, 2] 1 0 (1 / 60) \<lparr>mouthSmooth = 0.5, visemeTimer = 0, currentViseme = Some 2\<rparr>) = Some 2
   \<and> visemeTimer (useFrame [1, 2] 1 0 (1 / 60) \<lparr>mouthSmooth = 0.5, visemeTimer = 0, currentViseme = Some 2\<rparr>) = 1 / 60"
proof -
  let ?s = "\<lparr>mouthSmooth = 0.5, visemeTimer = 0, currentViseme = Some 2\<rparr>"
  have v: "mouthSmooth (useFrame [1, 2] 1 0 (1 / 60) ?s) = 0.675"
    by (simp add: useFrame_def Let_def lerp_def clamp_def)
  have h1: "mouthSmooth (useFrame [1, 2] 1 0 (1 / 60) ?s) > 0.02" unfolding v by simp
  have h2: "\<not> (0::real) > 0" by simp
  have h3: "visemeTimer ?s + 1 / 60 < interval (mouthSmooth (useFrame [1, 2] 1 0 (1 / 60) ?s))"
  proof -
    have "\<bar>interval 0.675 - (0.24 + (0.06 - 0.24) * clamp 0.675 0 1)\<bar> \<le> 1 / 2 ^ 53"
      by (rule interval_error)
    then have "0.24 + (0.06 - 0.24) * clamp 0.675 0 1 - 1 / 2 ^ 53 \<le> interval 0.675"
      by (simp only: abs_diff_le_iff)
    then show ?thesis unfolding v by (simp add: clamp_def)
  qed
  from cadence_pending_keeps_viseme [OF h1 h2 h3] h1 show ?thesis by simp
qed

lemma useFrame_mouthSmooth:
  "mouthSmooth (useFrame ixs m c d s) = mouthSmooth s + 0.35 * (clamp m 0 1 - mouthSmooth s)"
  by (simp only: useFrame_v lerp_from_start)

lemma useFrame_unit:
  assumes "0 \<le> mouthSmooth s" and "mouthSmooth s \<le> 1"
  shows "0 \<le> mouthSmooth (useFrame ixs m c d s) \<and> mouthSmooth (useFrame ixs m c d s) \<le> 1"
proof -
  have c: "0 \<le> clamp m 0 1" "clamp m 0 1 \<le> 1" by (simp_all add: clamp_def)
  have "0 \<le> lerp (mouthSmooth s) (clamp m 0 1) 0.35 \<and> lerp (mouthSmooth s) (clamp m 0 1) 0.35 \<le> 1"
    using assms c by (intro lerp_unit) simp_all
  then show ?thesis by (simp only: useFrame_v)
qed

lemma frames_unit:
  assumes "0 \<le> mouthSmooth s" and "mouthSmooth s \<le> 1"
  shows "0 \<le> mouthSmooth (frames ps s) \<and> mouthSmooth (frames ps s) \<le> 1"
  using assms
proof (induction ps arbitrary: s)
  case Nil
  then show ?case by (simp add: frames_def)
next
  case (Cons p ps)
  from useFrame_unit [OF Cons.prems]
  have "0 \<le> mouthSmooth (useFrame (p_shapes p) (p_mouth p) (p_viseme p) (p_delta p) s)"
       "mouthSmooth (useFrame (p_shapes p) (p_mouth p) (p_viseme p) (p_delta p) s) \<le> 1"
    by simp_all
  from Cons.IH [OF this] show ?case by (simp add: frames_def)
qed

text \<open>
  C10. \<^verbatim>\<open>mouthSmooth\<close> starts at 0, every frame replaces it by
  \<open>v + 0.35 * (clamp mouth 0 1 - v)\<close>, and after any sequence of frames, whatever
  the raw amplitudes, it lies in \<open>[0, 1]\<close>.
\<close>

theorem mouthSmooth_unit_interval:
  "0 \<le> mouthSmooth (frames ps selector_init) \<and> mouthSmooth (frames ps selector_init) \<le> 1
   \<and> mouthSmooth (useFrame ixs m c d (frames ps selector_init)) =
       mouthSmooth (frames ps selector_init)
         + 0.35 * (clamp m 0 1 - mouthSmooth (frames ps selector_init))
   \<and> mouthSmooth selector_init = 0"
proof -
  have "0 \<le> mouthSmooth selector_init" "mouthSmooth selector_init \<le> 1"
    by (simp_all add: selector_init_def)
  from frames_unit [OF this] useFrame_mouthSmooth [of ixs m c d "frames ps selector_init"]
  show ?thesis
    by (simp add: selector_init_def)
qed

end
